theory Spec2Isabelle
  imports Complex_Main "HOL-Library.Sublist"
begin

section \<open>Layers and rectangles\<close>

text \<open>
  The script \<^verbatim>\<open>dxf.py\<close> holds one function, \<^verbatim>\<open>export_layers_to_dxf\<close>. It reads
  map layers from the host project, folds their extents, drives a DXF exporter and patches
  the written file. The host's classes are not part of the script; the script only calls
  \<^verbatim>\<open>name\<close>, \<^verbatim>\<open>id()\<close>, \<^verbatim>\<open>type()\<close>, \<^verbatim>\<open>isVisible()\<close> and \<^verbatim>\<open>extent()\<close>
  of a layer, so a layer is a record of these five answers.
\<close>

datatype layer_kind = VectorLayer | RasterLayer | OtherLayer

text \<open>
  Modelled from the spec: the class \<^verbatim>\<open>QgsRectangle\<close> is not in the script. A rectangle has
  four coordinates and an explicit empty state that is distinct from every rectangle with
  coordinates; \<^verbatim>\<open>QgsRectangle()\<close> is the empty state.
\<close>

datatype rectangle = Empty | Rect (min_x: real) (min_y: real) (max_x: real) (max_y: real)

record layer =
  lid :: string
  lname :: string
  kind :: layer_kind
  visible :: bool
  extent :: rectangle

text \<open>Modelled from the spec: \<^verbatim>\<open>isEmpty()\<close> holds of the empty state only.\<close>

fun isEmpty :: "rectangle \<Rightarrow> bool" where
  "isEmpty Empty = True"
| "isEmpty (Rect _ _ _ _) = False"

text \<open>
  Modelled from the spec: \<^verbatim>\<open>combineExtentWith\<close> replaces a rectangle by the smallest
  rectangle that contains it and the argument (a union, not an intersection).
\<close>

fun combineExtentWith :: "rectangle \<Rightarrow> rectangle \<Rightarrow> rectangle" where
  "combineExtentWith Empty r = r"
| "combineExtentWith r Empty = r"
| "combineExtentWith (Rect a b c d) (Rect a' b' c' d') =
     Rect (min a a') (min b b') (max c c') (max d d')"

text \<open>
  Modelled from the spec: \<^verbatim>\<open>project.mapLayersByName(name)\<close> answers the layers whose name
  is exactly \<^verbatim>\<open>name\<close>, in the order in which the host provides its layers.
\<close>

definition mapLayersByName :: "layer list \<Rightarrow> string \<Rightarrow> layer list" where
  "mapLayersByName project layer_name = filter (\<lambda>l. lname l = layer_name) project"

subsection \<open>Choosing the layers (lines 39 to 51)\<close>

text \<open>
  The loop of lines 42 to 45, with the list \<^verbatim>\<open>layers_to_export\<close> as accumulator: a name
  without a layer appends nothing, any other name appends \<^verbatim>\<open>layers[0]\<close>.
\<close>

fun selected_loop :: "layer list \<Rightarrow> string list \<Rightarrow> layer list \<Rightarrow> layer list" where
  "selected_loop project [] acc = acc"
| "selected_loop project (layer_name # rest) acc =
     (case mapLayersByName project layer_name of
        [] \<Rightarrow> selected_loop project rest acc
      | l # _ \<Rightarrow> selected_loop project rest (acc @ [l]))"

text \<open>The loop of lines 49 to 51 over the layer tree: the visible layers, in tree order.\<close>

fun visible_loop :: "layer list \<Rightarrow> layer list \<Rightarrow> layer list" where
  "visible_loop [] acc = acc"
| "visible_loop (l # rest) acc = visible_loop rest (if visible l then acc @ [l] else acc)"

text \<open>
  \<^verbatim>\<open>if selected_layers:\<close> is false for \<^verbatim>\<open>None\<close> and for the empty list, so both take
  the branch of the visible layers.
\<close>

fun layers_to_export :: "layer list \<Rightarrow> string list option \<Rightarrow> layer list" where
  "layers_to_export project None = visible_loop project []"
| "layers_to_export project (Some []) = visible_loop project []"
| "layers_to_export project (Some (n # ns)) = selected_loop project (n # ns) []"

subsection \<open>The combined extent (lines 66 to 71)\<close>

definition extent_step :: "rectangle \<Rightarrow> rectangle \<Rightarrow> rectangle" where
  "extent_step acc r = (if isEmpty acc then r else combineExtentWith acc r)"

fun extent_loop :: "rectangle \<Rightarrow> layer list \<Rightarrow> rectangle" where
  "extent_loop acc [] = acc"
| "extent_loop acc (l # rest) = extent_loop (extent_step acc (extent l)) rest"

definition combine :: "layer list \<Rightarrow> rectangle" where
  "combine layers = extent_loop Empty layers"

section \<open>The text of the DXF file (lines 150 to 181)\<close>

text \<open>
  After the export the script reads the file back as one Python string, edits it with
  \<^verbatim>\<open>str.replace\<close>, \<^verbatim>\<open>in\<close>, \<^verbatim>\<open>re.sub\<close>, \<^verbatim>\<open>str.find\<close> and slices, and writes it again.
  A document is a \<^typ>\<open>string\<close>; its characters are the code points below 256. None of the
  edits looks at a character beyond telling \<^verbatim>\<open>\s\<close>, \<^verbatim>\<open>\d\<close> and the literal characters of
  the two patterns apart.
\<close>

subsection \<open>The regular expression of line 165\<close>

text \<open>
  \<^verbatim>\<open>\s\<close> and \<^verbatim>\<open>\d\<close> in a Python \<^verbatim>\<open>str\<close> pattern are the Unicode white space and the
  Unicode decimal digits. Below 256 these are the characters 9 to 13, 28 to 32, 133 and 160,
  and the ten ASCII digits.
\<close>

definition is_space :: "char \<Rightarrow> bool" where
  "is_space c = (c \<in> {CHR 0x09, CHR 0x0A, CHR 0x0B, CHR 0x0C, CHR 0x0D, CHR 0x1C, CHR 0x1D,
                     CHR 0x1E, CHR 0x1F, CHR 0x20, CHR 0x85, CHR 0xA0})"

definition is_digit :: "char \<Rightarrow> bool" where
  "is_digit c = (c \<in> set ''0123456789'')"

text \<open>
  The pattern \<^verbatim>\<open>(\$INSUNITS\n\s*70\n\s*)\d+\<close> uses literal characters, a greedy star, a
  greedy plus and the end of group 1. The matcher tries the longest repetition first and
  gives characters back one at a time when the rest of the pattern fails, as the
  backtracking matcher of \<^verbatim>\<open>re\<close> does. Its third argument is the text that was left when
  group 1 ended; the result is that text and the text left after the whole match.
\<close>

datatype re_item = Lit char | Star "char \<Rightarrow> bool" | Plus "char \<Rightarrow> bool" | GroupEnd

fun re_match :: "re_item list \<Rightarrow> string \<Rightarrow> string \<Rightarrow> (string \<times> string) option" where
  "re_match [] s g = Some (g, s)"
| "re_match (GroupEnd # p) s g = re_match p s s"
| "re_match (Lit c # p) [] g = None"
| "re_match (Lit c # p) (x # xs) g = (if x = c then re_match p xs g else None)"
| "re_match (Star cls # p) [] g = re_match p [] g"
| "re_match (Star cls # p) (x # xs) g =
     (if cls x
      then (case re_match (Star cls # p) xs g of
              Some r \<Rightarrow> Some r
            | None \<Rightarrow> re_match p (x # xs) g)
      else re_match p (x # xs) g)"
| "re_match (Plus cls # p) [] g = None"
| "re_match (Plus cls # p) (x # xs) g =
     (if cls x then re_match (Star cls # p) xs g else None)"

definition pattern :: "re_item list" where
  "pattern = map Lit ''$INSUNITS\<newline>'' @ [Star is_space] @ map Lit ''70\<newline>'' @
             [Star is_space, GroupEnd, Plus is_digit]"

text \<open>A match of the pattern consumes at least one character, so the substitution ends.\<close>

lemma re_match_length: "re_match p s g = Some (g', r) \<Longrightarrow> length r \<le> length s"
proof (induction p s g rule: re_match.induct)
  case (6 cls p x xs g)
  then show ?case by (auto split: if_splits option.splits)
qed (auto split: if_splits)

lemma pattern_consumes:
  assumes "re_match pattern s g = Some (g', r)"
  shows "length r < length s"
proof (cases s)
  case Nil
  with assms show ?thesis by (simp add: pattern_def)
next
  case (Cons x xs)
  with assms have "re_match (tl pattern) xs g = Some (g', r)"
    by (simp add: pattern_def split: if_splits)
  then have "length r \<le> length xs" by (rule re_match_length)
  with Cons show ?thesis by simp
qed

text \<open>
  \<^verbatim>\<open>re.sub(pattern, r'\g<1>6', new_content)\<close>: the text is scanned from the left; where the
  pattern matches, group 1 and the character 6 are written and the scan goes on behind the
  match, elsewhere one character is copied.
\<close>

function re_sub :: "string \<Rightarrow> string" where
  "re_sub [] = []"
| "re_sub (c # cs) =
     (case re_match pattern (c # cs) (c # cs) of
        None \<Rightarrow> c # re_sub cs
      | Some (g, r) \<Rightarrow> take (length (c # cs) - length g) (c # cs) @ ''6'' @ re_sub r)"
  by pat_completeness auto
termination
  by (relation "measure length") (auto dest: pattern_consumes)

subsection \<open>Replacing the version, searching, inserting\<close>

text \<open>
  \<^verbatim>\<open>content.replace('AC1015', 'AC1021')\<close> (line 158): every occurrence found in a scan
  from the left is replaced, and the scan goes on behind it.
\<close>

fun replace_version :: "string \<Rightarrow> string" where
  "replace_version [] = []"
| "replace_version (c # cs) =
     (if prefix ''AC1015'' (c # cs) then ''AC1021'' @ replace_version (drop 6 (c # cs))
      else c # replace_version cs)"

text \<open>\<^verbatim>\<open>sub in s\<close> (line 162).\<close>

fun py_in :: "string \<Rightarrow> string \<Rightarrow> bool" where
  "py_in sub [] = (sub = [])"
| "py_in sub (c # cs) = (prefix sub (c # cs) \<or> py_in sub cs)"

text \<open>
  \<^verbatim>\<open>s.find(sub, start)\<close> (line 169): the lowest index from \<^verbatim>\<open>start\<close> on at which
  \<^verbatim>\<open>sub\<close> begins, or \<^verbatim>\<open>-1\<close>. A negative \<^verbatim>\<open>start\<close> counts from the end of the text and
  is cut off at 0; \<^verbatim>\<open>s.find('HEADER')\<close> is the search from 0.
\<close>

fun find_first :: "string \<Rightarrow> string \<Rightarrow> nat option" where
  "find_first sub [] = (if sub = [] then Some 0 else None)"
| "find_first sub (c # cs) =
     (if prefix sub (c # cs) then Some 0 else map_option Suc (find_first sub cs))"

definition py_find :: "string \<Rightarrow> string \<Rightarrow> int \<Rightarrow> int" where
  "py_find s sub start =
     (let n = int (length s);
          st = (if start < 0 then max 0 (start + n) else start)
      in if n < st then - 1
         else (case find_first sub (drop (nat st) s) of
                 None \<Rightarrow> - 1
               | Some k \<Rightarrow> st + int k))"

definition units_def :: string where
  "units_def = ''\<newline>$INSUNITS\<newline> 70\<newline>     6\<newline>''"

text \<open>Lines 162 to 172, on the text that line 158 produced.\<close>

definition set_units :: "string \<Rightarrow> string" where
  "set_units new_content =
     (if py_in ''$INSUNITS'' new_content then re_sub new_content
      else (let header_end = py_find new_content ''ENDSEC'' (py_find new_content ''HEADER'' 0)
            in if header_end > - 1
               then take (nat header_end) new_content @ units_def @
                    drop (nat header_end) new_content
               else new_content))"

text \<open>
  Lines 158 to 172 as one function. No statement of these lines raises or returns, so the
  function is total; the version and the units code are the constants of the script.
\<close>

definition patch :: "string \<Rightarrow> string" where
  "patch content = set_units (replace_version content)"

text \<open>
  Two notions to speak about documents. A document has a header pair when an
  \<^verbatim>\<open>ENDSEC\<close> follows its first \<^verbatim>\<open>HEADER\<close>; \<open>has_pair_ex\<close> below shows that this is the
  same as some \<^verbatim>\<open>ENDSEC\<close> following some \<^verbatim>\<open>HEADER\<close>. \<open>count_sub\<close> counts the places
  where a text begins.
\<close>

definition has_pair :: "string \<Rightarrow> bool" where
  "has_pair s =
     (case find_first ''HEADER'' s of
        None \<Rightarrow> False
      | Some i \<Rightarrow> py_in ''ENDSEC'' (drop (i + 6) s))"


text \<open>Two characters are the same text when they are equal or both digits.\<close>

definition same_text :: "char \<Rightarrow> char \<Rightarrow> bool" where
  "same_text x y = (x = y \<or> is_digit x \<and> is_digit y)"

text \<open>
  The unit records of a text. The pattern of line 164 matches at a place of the text when a
  record begins there: the name line \<^verbatim>\<open>$INSUNITS\<close> with its line break, white space, the
  line \<^verbatim>\<open>70\<close> with its line break, white space and a run of digits. \<open>has_record\<close> asks
  whether the matcher of the script succeeds at some place of the text. A piece is a text
  followed by one record, which is given by its two runs of white space and its run of
  digits; \<open>assemble\<close> is the text that a list of pieces and a last text make, and
  \<open>set_six\<close> puts \<^verbatim>\<open>6\<close> for the digits of a record. A list of pieces is well formed when
  its texts and the last text hold no record, the white space is white space, and each run
  of digits is not empty and is not followed by a digit.
\<close>

fun has_record :: "string \<Rightarrow> bool" where
  "has_record [] = False"
| "has_record (c # cs) =
     (case re_match pattern (c # cs) (c # cs) of None \<Rightarrow> has_record cs | Some m \<Rightarrow> True)"

datatype piece = Piece string string string string

fun assemble :: "piece list \<Rightarrow> string \<Rightarrow> string" where
  "assemble [] tail = tail"
| "assemble (Piece before w1 w2 ds # ps) tail =
     before @ ''$INSUNITS\<newline>'' @ w1 @ ''70\<newline>'' @ w2 @ ds @ assemble ps tail"

fun set_six :: "piece \<Rightarrow> piece" where
  "set_six (Piece before w1 w2 ds) = Piece before w1 w2 ''6''"

fun no_digit_first :: "string \<Rightarrow> bool" where
  "no_digit_first [] = True"
| "no_digit_first (c # cs) = (\<not> is_digit c)"

fun well_formed :: "piece list \<Rightarrow> string \<Rightarrow> bool" where
  "well_formed [] tail = (\<not> has_record tail)"
| "well_formed (Piece before w1 w2 ds # ps) tail =
     (\<not> has_record before \<and> list_all is_space w1 \<and> list_all is_space w2 \<and>
      ds \<noteq> [] \<and> list_all is_digit ds \<and> no_digit_first (assemble ps tail) \<and> well_formed ps tail)"

section \<open>The run of the script\<close>

text \<open>
  The script reports by printing and by its return value (\<^verbatim>\<open>None\<close>, \<^verbatim>\<open>False\<close> or
  \<^verbatim>\<open>True\<close>). A message stands for one printed line.
\<close>

datatype message =
    NoLayersToExport | FoundLayers nat | WarnScale | WarnCrs | WarnMapSettings
  | NoVectorLayers | WarnLayers | CannotOpen | FirstMethodFailed | SecondMethodFailed
  | ExportError | VersionChanged | UnitsSet | WarnNotModified | Created | Unexpected

text \<open>
  Lines 151 to 181. Reading and writing the file can raise; the first argument is the text
  read (\<^verbatim>\<open>None\<close> when reading raised), the second tells whether writing succeeded. The
  result is the text written, if any, and the printed lines: the \<^verbatim>\<open>except\<close> branch prints
  the warning, the normal end prints the two lines about the version and the units.
\<close>

fun postprocess :: "string option \<Rightarrow> bool \<Rightarrow> string option \<times> message list" where
  "postprocess None write_ok = (None, [WarnNotModified])"
| "postprocess (Some content) write_ok =
     (if write_ok then (Some (patch content), [VersionChanged, UnitsSet])
      else (None, [WarnNotModified]))"

text \<open>
  The calls that the script makes on the exporter, in order. The exporter and the host are
  outside the script: a method can be missing (\<^verbatim>\<open>hasattr\<close> is false), raise, or work, and
  the record \<open>host\<close> says which.
\<close>

datatype exporter_call =
    Construct | SetSymbologyScale nat | SetSourceCrs | SetCrs | SetMapSettings
  | SetVectorLayers "string list" | SetLayers "string list"
  | WriteToFileDevice | WriteToFilePath

datatype behaviour = Missing | Raising | Working

datatype open_result = OpenRaises | OpenFails | OpenOk

datatype write_result = Raises | ReturnsNone | Returns

record host =
  exporter_ctor_raises :: bool
  setSymbologyScale :: behaviour
  crs_ctor_raises :: bool
  setSourceCrs :: behaviour
  setCrs :: behaviour
  mapSettings_raises :: bool
  setMapSettings :: behaviour
  setVectorLayers :: behaviour
  setLayers :: behaviour
  qfile_open :: open_result
  writeToFile_device :: write_result
  writeToFile_path :: write_result
  file_read :: "string option"
  file_write_ok :: bool

record run =
  result :: "bool option"
  calls :: "exporter_call list"
  messages :: "message list"
  rewritten :: "string option"

text \<open>A call behind \<^verbatim>\<open>hasattr\<close> and inside \<^verbatim>\<open>try\<close>: the calls made and the lines printed.\<close>

fun guarded_call :: "behaviour \<Rightarrow> exporter_call \<Rightarrow> message \<Rightarrow> exporter_call list \<times> message list" where
  "guarded_call Missing c w = ([], [])"
| "guarded_call Raising c w = ([c], [w])"
| "guarded_call Working c w = ([c], [])"

text \<open>Lines 78 to 82.\<close>

definition set_scale :: "host \<Rightarrow> nat \<Rightarrow> exporter_call list \<times> message list" where
  "set_scale h scale = guarded_call (setSymbologyScale h) (SetSymbologyScale scale) WarnScale"

text \<open>Lines 86 to 93.\<close>

definition set_crs :: "host \<Rightarrow> exporter_call list \<times> message list" where
  "set_crs h =
     (if crs_ctor_raises h then ([], [WarnCrs])
      else if setSourceCrs h \<noteq> Missing then guarded_call (setSourceCrs h) SetSourceCrs WarnCrs
      else guarded_call (setCrs h) SetCrs WarnCrs)"

text \<open>
  Lines 96 to 100. \<^verbatim>\<open>setMapSettings\<close> is called without \<^verbatim>\<open>hasattr\<close>: a missing method
  raises inside the \<^verbatim>\<open>try\<close> and prints the warning.
\<close>

definition set_map_settings :: "host \<Rightarrow> exporter_call list \<times> message list" where
  "set_map_settings h =
     (if mapSettings_raises h then ([], [WarnMapSettings])
      else (case setMapSettings h of
              Missing \<Rightarrow> ([], [WarnMapSettings])
            | Raising \<Rightarrow> ([SetMapSettings], [WarnMapSettings])
            | Working \<Rightarrow> ([SetMapSettings], [])))"

definition configure :: "host \<Rightarrow> nat \<Rightarrow> exporter_call list \<times> message list" where
  "configure h scale =
     (fst (set_scale h scale) @ fst (set_crs h) @ fst (set_map_settings h),
      snd (set_scale h scale) @ snd (set_crs h) @ snd (set_map_settings h))"

text \<open>
  Lines 102 to 105: the dictionary from layer id to layer, in insertion order; a second
  layer with the same id replaces the first in its place.
\<close>

fun dict_put :: "(string \<times> layer) list \<Rightarrow> string \<Rightarrow> layer \<Rightarrow> (string \<times> layer) list" where
  "dict_put [] k v = [(k, v)]"
| "dict_put ((k', v') # d) k v = (if k' = k then (k, v) # d else (k', v') # dict_put d k v)"

fun layers_dict_loop :: "layer list \<Rightarrow> (string \<times> layer) list \<Rightarrow> (string \<times> layer) list" where
  "layers_dict_loop [] d = d"
| "layers_dict_loop (l # ls) d =
     layers_dict_loop ls (if kind l = VectorLayer then dict_put d (lid l) l else d)"

definition layers_dict :: "layer list \<Rightarrow> (string \<times> layer) list" where
  "layers_dict ls = layers_dict_loop ls []"

text \<open>Lines 112 to 118.\<close>

definition set_layers :: "host \<Rightarrow> string list \<Rightarrow> exporter_call list \<times> message list" where
  "set_layers h ids =
     (if setVectorLayers h \<noteq> Missing
      then guarded_call (setVectorLayers h) (SetVectorLayers ids) WarnLayers
      else guarded_call (setLayers h) (SetLayers ids) WarnLayers)"

text \<open>
  Lines 121 to 148: whether a result was written, the calls made and the lines printed.
  The second method runs when the first one raises; a missing method raises as well.
\<close>

definition second_method :: "host \<Rightarrow> bool \<times> exporter_call list \<times> message list" where
  "second_method h =
     (case writeToFile_path h of
        Raises \<Rightarrow> (False, [WriteToFilePath], [FirstMethodFailed, SecondMethodFailed])
      | ReturnsNone \<Rightarrow> (False, [WriteToFilePath], [FirstMethodFailed, ExportError])
      | Returns \<Rightarrow> (True, [WriteToFilePath], [FirstMethodFailed]))"

definition write_file :: "host \<Rightarrow> bool \<times> exporter_call list \<times> message list" where
  "write_file h =
     (case qfile_open h of
        OpenRaises \<Rightarrow> second_method h
      | OpenFails \<Rightarrow> (False, [], [CannotOpen])
      | OpenOk \<Rightarrow>
          (case writeToFile_device h of
             Raises \<Rightarrow> (case second_method h of (ok, c, m) \<Rightarrow> (ok, WriteToFileDevice # c, m))
           | ReturnsNone \<Rightarrow> (False, [WriteToFileDevice], [ExportError])
           | Returns \<Rightarrow> (True, [WriteToFileDevice], [])))"

text \<open>
  The function of the script from line 36 on. The directory handling of lines 26 to 33 and
  the combined extent, which the script computes and never uses, leave no trace in the run.
\<close>

definition export_layers_to_dxf ::
    "host \<Rightarrow> layer list \<Rightarrow> string list option \<Rightarrow> nat \<Rightarrow> run" where
  "export_layers_to_dxf h project selected_layers scale =
     (let ls = layers_to_export project selected_layers in
      if ls = [] then
        \<lparr>result = None, calls = [], messages = [NoLayersToExport], rewritten = None\<rparr>
      else if exporter_ctor_raises h then
        \<lparr>result = Some False, calls = [Construct],
         messages = [FoundLayers (length ls), Unexpected], rewritten = None\<rparr>
      else
        (let cfg = configure h scale; d = layers_dict ls in
         if d = [] then
           \<lparr>result = Some False, calls = Construct # fst cfg,
            messages = FoundLayers (length ls) # snd cfg @ [NoVectorLayers],
            rewritten = None\<rparr>
         else
           (let sl = set_layers h (map (lid \<circ> snd) d); w = write_file h in
            if \<not> fst w then
              \<lparr>result = Some False,
               calls = Construct # fst cfg @ fst sl @ fst (snd w),
               messages = FoundLayers (length ls) # snd cfg @ snd sl @ snd (snd w),
               rewritten = None\<rparr>
            else
              (let p = postprocess (file_read h) (file_write_ok h) in
               \<lparr>result = Some True,
                calls = Construct # fst cfg @ fst sl @ fst (snd w),
                messages = FoundLayers (length ls) # snd cfg @ snd sl @ snd (snd w) @
                           snd p @ [Created],
                rewritten = fst p\<rparr>))))"

text \<open>The calls that configure the exporter, as opposed to handing it layers or writing.\<close>

fun is_configuration :: "exporter_call \<Rightarrow> bool" where
  "is_configuration Construct = True"
| "is_configuration (SetSymbologyScale _) = True"
| "is_configuration SetSourceCrs = True"
| "is_configuration SetCrs = True"
| "is_configuration SetMapSettings = True"
| "is_configuration (SetVectorLayers _) = False"
| "is_configuration (SetLayers _) = False"
| "is_configuration WriteToFileDevice = False"
| "is_configuration WriteToFilePath = False"

subsection \<open>Example values\<close>

definition layer_a :: layer where
  "layer_a = \<lparr>lid = ''id_a'', lname = ''a'', kind = VectorLayer, visible = True,
              extent = Rect 0 0 1 1\<rparr>"

definition layer_b :: layer where
  "layer_b = \<lparr>lid = ''id_b'', lname = ''b'', kind = VectorLayer, visible = False,
              extent = Rect 2 2 3 3\<rparr>"

definition layer_c :: layer where
  "layer_c = \<lparr>lid = ''id_c'', lname = ''c'', kind = RasterLayer, visible = True,
              extent = Empty\<rparr>"

definition layer_a2 :: layer where
  "layer_a2 = \<lparr>lid = ''id_a2'', lname = ''a'', kind = VectorLayer, visible = True,
               extent = Rect 5 5 6 6\<rparr>"

text \<open>A host on which every call works and the newer methods exist.\<close>

definition qgis :: host where
  "qgis = \<lparr>exporter_ctor_raises = False, setSymbologyScale = Working, crs_ctor_raises = False,
           setSourceCrs = Working, setCrs = Missing, mapSettings_raises = False,
           setMapSettings = Working, setVectorLayers = Working, setLayers = Missing,
           qfile_open = OpenOk, writeToFile_device = Returns, writeToFile_path = Returns,
           file_read = Some ''HEADER\<newline>ENDSEC\<newline>AC1015'', file_write_ok = True\<rparr>"

section \<open>Properties of the layer choice and of the extent\<close>

lemma selected_loop_acc:
  "selected_loop project names acc = acc @ selected_loop project names []"
proof (induction names arbitrary: acc)
  case Nil
  show ?case by simp
next
  case (Cons n ns)
  show ?case
  proof (cases "mapLayersByName project n")
    case Nil
    then show ?thesis using Cons.IH [of acc] by simp
  next
    case (Cons l ls)
    then show ?thesis using Cons.IH [of "acc @ [l]"] Cons.IH [of "[l]"] by simp
  qed
qed

lemma selected_loop_concat:
  "selected_loop project names [] =
     concat (map (\<lambda>n. take (Suc 0) (mapLayersByName project n)) names)"
proof (induction names)
  case Nil
  show ?case by simp
next
  case (Cons n ns)
  show ?case
  proof (cases "mapLayersByName project n")
    case Nil
    then show ?thesis using Cons.IH by simp
  next
    case (Cons l ls)
    then show ?thesis using Cons.IH selected_loop_acc [of project ns "[l]"] by simp
  qed
qed

lemma take1_filter_find:
  "take (Suc 0) (filter P xs) = (case List.find P xs of None \<Rightarrow> [] | Some x \<Rightarrow> [x])"
  by (induction xs) auto

lemma find_is_Some: "(List.find P xs \<noteq> None) = (\<exists>x \<in> set xs. P x)"
  by (auto simp: find_None_iff)

lemma concat_take1_map_filter:
  "concat (map (\<lambda>n. take (Suc 0) (mapLayersByName project n)) names) =
     List.map_filter (\<lambda>n. List.find (\<lambda>l. lname l = n) project) names"
  by (induction names)
     (simp_all add: List.map_filter_simps take1_filter_find mapLayersByName_def
               split: option.splits)

lemma length_map_filter_find:
  "length (List.map_filter (\<lambda>n. List.find (\<lambda>l. lname l = n) project) ms) =
     length (filter (\<lambda>n. \<exists>l \<in> set project. lname l = n) ms)"
proof (induction ms)
  case Nil
  show ?case by (simp add: List.map_filter_simps)
next
  case (Cons a ms)
  show ?case
  proof (cases "List.find (\<lambda>l. lname l = a) project")
    case None
    with Cons find_is_Some [of "\<lambda>l. lname l = a" project] show ?thesis
      by (simp add: List.map_filter_simps)
  next
    case (Some x)
    with Cons find_is_Some [of "\<lambda>l. lname l = a" project] show ?thesis
      by (simp add: List.map_filter_simps)
  qed
qed

lemma filter_name_take1:
  "filter (\<lambda>l. lname l = n) (take (Suc 0) (mapLayersByName project n')) =
     (if n' = n then take (Suc 0) (mapLayersByName project n) else [])"
proof (cases "mapLayersByName project n'")
  case Nil
  then show ?thesis by auto
next
  case (Cons l ls)
  then have "l \<in> set (mapLayersByName project n')" by simp
  then have "lname l = n'" by (simp add: mapLayersByName_def)
  with Cons show ?thesis by auto
qed

lemma visible_loop_acc: "visible_loop project acc = acc @ filter visible project"
  by (induction project arbitrary: acc) auto

text \<open>
  C9. A non-empty list of names is resolved name by name against the available layers by
  exact match of the name; a name that no layer carries is skipped, and the result lists
  the resolved layers in the order of the names. The function is total: an unmatched name
  is no error.
\<close>

theorem select_by_names_skips_unmatched:
  assumes "names \<noteq> []"
  shows "layers_to_export project (Some names) =
           List.map_filter (\<lambda>n. List.find (\<lambda>l. lname l = n) project) names \<and>
         length (layers_to_export project (Some names)) =
           length (filter (\<lambda>n. \<exists>l \<in> set project. lname l = n) names)"
proof -
  from assms obtain n ns where names: "names = n # ns" by (cases names) auto
  have sel: "layers_to_export project (Some names) = selected_loop project names []"
    by (simp add: names del: selected_loop.simps)
  have eq: "layers_to_export project (Some names) =
           List.map_filter (\<lambda>n. List.find (\<lambda>l. lname l = n) project) names"
    by (simp only: sel selected_loop_concat concat_take1_map_filter)
  have "length (layers_to_export project (Some names)) =
           length (filter (\<lambda>n. \<exists>l \<in> set project. lname l = n) names)"
    by (simp only: eq length_map_filter_find)
  with eq show ?thesis by (rule conjI)
qed

text \<open>Three available layers, three requested names, one of them unknown: two layers.\<close>

theorem select_by_names_skips_unmatched_witness:
  "[''a'', ''x'', ''c''] \<noteq> [] \<and>
   layers_to_export [layer_a, layer_b, layer_c] (Some [''a'', ''x'', ''c'']) = [layer_a, layer_c] \<and>
   length (layers_to_export [layer_a, layer_b, layer_c] (Some [''a'', ''x'', ''c''])) = 2"
  using select_by_names_skips_unmatched
          [of "[''a'', ''x'', ''c'']" "[layer_a, layer_b, layer_c]"]
  by (simp add: List.map_filter_simps layer_a_def layer_b_def layer_c_def)

text \<open>
  C10. When the host answers one or more layers for a requested name, the result holds the
  first of them once for each time the name was requested, and none of the others.
\<close>

theorem select_takes_first_match_only:
  assumes "names \<noteq> []" and "mapLayersByName project n = m # ms"
  shows "filter (\<lambda>l. lname l = n) (layers_to_export project (Some names)) =
           replicate (count_list names n) m"
proof -
  from assms(1) obtain k ks where names: "names = k # ks" by (cases names) auto
  have sel: "layers_to_export project (Some names) = selected_loop project names []"
    by (simp add: names del: selected_loop.simps)
  have gen: "filter (\<lambda>l. lname l = n)
          (concat (map (\<lambda>n'. take (Suc 0) (mapLayersByName project n')) xs)) =
        replicate (count_list xs n) m" for xs
    by (induction xs) (simp_all add: filter_name_take1 assms(2))
  show ?thesis
    by (simp only: sel selected_loop_concat gen)
qed

theorem select_takes_first_match_only_witness:
  "[''a'', ''b''] \<noteq> [] \<and>
   mapLayersByName [layer_a, layer_a2, layer_b] ''a'' = [layer_a, layer_a2] \<and>
   filter (\<lambda>l. lname l = ''a'')
     (layers_to_export [layer_a, layer_a2, layer_b] (Some [''a'', ''b''])) = [layer_a]"
proof -
  have m: "mapLayersByName [layer_a, layer_a2, layer_b] ''a'' = layer_a # [layer_a2]"
    by (simp add: mapLayersByName_def layer_a_def layer_a2_def layer_b_def)
  have n: "[''a'', ''b''] \<noteq> []" by simp
  show ?thesis
    using select_takes_first_match_only [OF n m] m by simp
qed

section \<open>Properties of the combined extent\<close>

lemma extent_step_commute: "extent_step a b = extent_step b a"
  by (cases a; cases b) (simp_all add: extent_step_def min.commute max.commute)

lemma extent_step_assoc: "extent_step (extent_step a b) c = extent_step a (extent_step b c)"
  by (cases a; cases b; cases c) (simp_all add: extent_step_def min.assoc max.assoc)

lemma extent_step_Empty: "extent_step Empty a = a" "extent_step a Empty = a"
  by (cases a; simp add: extent_step_def)+

lemma extent_loop_append: "extent_loop acc (xs @ ys) = extent_loop (extent_loop acc xs) ys"
  by (induction xs arbitrary: acc) simp_all

lemma extent_loop_step: "extent_loop acc ls = extent_step acc (extent_loop Empty ls)"
proof (induction ls arbitrary: acc)
  case Nil
  show ?case by (simp add: extent_step_Empty)
next
  case (Cons l ls)
  have "extent_loop acc (l # ls) = extent_loop (extent_step acc (extent l)) ls" by simp
  also have "\<dots> = extent_step (extent_step acc (extent l)) (extent_loop Empty ls)"
    by (rule Cons.IH)
  also have "\<dots> = extent_step acc (extent_step (extent l) (extent_loop Empty ls))"
    by (rule extent_step_assoc)
  also have "extent_step (extent l) (extent_loop Empty ls) = extent_loop (extent l) ls"
    by (rule Cons.IH [symmetric])
  also have "extent_loop (extent l) ls = extent_loop Empty (l # ls)"
    by (simp add: extent_step_Empty)
  finally show ?case .
qed

lemma combine_append: "combine (xs @ ys) = extent_step (combine xs) (combine ys)"
  unfolding combine_def extent_loop_append by (rule extent_loop_step)

text \<open>
  C7. One step of the fold is commutative and associative on rectangles and has the empty
  rectangle as identity on both sides. The fold of two lists put together is the step
  applied to their folds, so it does not depend on which list comes first; the fold of no
  layer is the empty rectangle and the fold of one layer is that layer's extent.
\<close>

theorem combine_laws:
  "extent_step a b = extent_step b a \<and>
   extent_step (extent_step a b) c = extent_step a (extent_step b c) \<and>
   extent_step Empty a = a \<and>
   extent_step a Empty = a \<and>
   combine (xs @ ys) = extent_step (combine xs) (combine ys) \<and>
   combine (xs @ ys) = combine (ys @ xs) \<and>
   combine [] = Empty \<and>
   combine [l] = extent l"
proof (intro conjI)
  show "extent_step a b = extent_step b a" by (rule extent_step_commute)
  show "extent_step (extent_step a b) c = extent_step a (extent_step b c)"
    by (rule extent_step_assoc)
  show "extent_step Empty a = a" by (rule extent_step_Empty)
  show "extent_step a Empty = a" by (rule extent_step_Empty)
  show "combine (xs @ ys) = extent_step (combine xs) (combine ys)" by (rule combine_append)
  show "combine (xs @ ys) = combine (ys @ xs)"
    unfolding combine_append by (rule extent_step_commute)
  show "combine [] = Empty" by (simp add: combine_def)
  show "combine [l] = extent l" by (simp add: combine_def extent_step_Empty)
qed

text \<open>
  The fold at three rectangles, one of them empty: the two orders agree, and the empty
  extent of the third layer changes nothing.
\<close>

theorem combine_laws_witness:
  "extent_step (Rect 0 0 1 1) (Rect 2 2 3 3) = Rect 0 0 3 3 \<and>
   extent_step (Rect 2 2 3 3) (Rect 0 0 1 1) = Rect 0 0 3 3 \<and>
   extent_step (extent_step (Rect 0 0 1 1) (Rect 2 2 3 3)) Empty = Rect 0 0 3 3 \<and>
   combine ([layer_a, layer_c] @ [layer_b]) = Rect 0 0 3 3 \<and>
   combine ([layer_b] @ [layer_a, layer_c]) = Rect 0 0 3 3 \<and>
   combine [] = Empty \<and>
   combine [layer_a] = Rect 0 0 1 1"
  using combine_laws [of "Rect 0 0 1 1" "Rect 2 2 3 3" Empty "[layer_a, layer_c]" "[layer_b]" layer_a]
  by (simp add: extent_step_def combine_def layer_a_def layer_b_def layer_c_def)

section \<open>The regular expression decides by a single scan\<close>

text \<open>
  White space, digits and the literal characters of the pattern exclude each other, so the
  matcher never has to give a character back: a match is the name line, white space, the
  line 70, white space and the longest run of digits.
\<close>

lemma re_match_lits:
  "re_match (map Lit w @ p) s g =
     (if prefix w s then re_match p (drop (length w) s) g else None)"
proof (induction w arbitrary: s)
  case Nil
  show ?case by simp
next
  case (Cons a w)
  show ?case by (cases s) (simp_all add: Cons.IH)
qed

lemma re_match_star_skip:
  assumes "\<And>x xs g. cls x \<Longrightarrow> re_match p (x # xs) g = None"
  shows "re_match (Star cls # p) s g = re_match p (dropWhile cls s) g"
proof (induction s)
  case Nil
  show ?case by simp
next
  case (Cons x xs)
  show ?case
  proof (cases "cls x")
    case True
    with Cons assms [of x xs g] show ?thesis by (simp split: option.splits)
  next
    case False
    then show ?thesis by simp
  qed
qed

lemma re_match_star_end: "re_match [Star cls] s g = Some (g, dropWhile cls s)"
  by (induction s) simp_all

lemma space_not_digit: "is_space x \<Longrightarrow> \<not> is_digit x"
  by (auto simp: is_space_def is_digit_def)

lemma space_not_seven: "is_space x \<Longrightarrow> x \<noteq> CHR ''7''"
  by (auto simp: is_space_def)

lemma group_end_plus:
  "re_match [GroupEnd, Plus is_digit] t g =
     (case t of [] \<Rightarrow> None
      | d # ds \<Rightarrow> if is_digit d then Some (t, dropWhile is_digit ds) else None)"
  by (cases t) (simp_all add: re_match_star_end)

lemma pattern_tail:
  "re_match [Star is_space, GroupEnd, Plus is_digit] t g =
     (case dropWhile is_space t of [] \<Rightarrow> None
      | d # ds \<Rightarrow> if is_digit d then Some (d # ds, dropWhile is_digit ds) else None)"
proof -
  have "re_match (Star is_space # [GroupEnd, Plus is_digit]) t g =
          re_match [GroupEnd, Plus is_digit] (dropWhile is_space t) g"
    by (rule re_match_star_skip) (simp add: space_not_digit)
  then have "re_match [Star is_space, GroupEnd, Plus is_digit] t g =
          re_match [GroupEnd, Plus is_digit] (dropWhile is_space t) g"
    by simp
  then show ?thesis
    by (cases "dropWhile is_space t") (simp_all only: group_end_plus list.case)
qed

lemma pattern_middle:
  "re_match [Star is_space, Lit CHR ''7'', Lit CHR ''0'', Lit CHR ''\<newline>'',
             Star is_space, GroupEnd, Plus is_digit] t g =
     (if prefix ''70\<newline>'' (dropWhile is_space t)
      then re_match [Star is_space, GroupEnd, Plus is_digit]
             (drop 3 (dropWhile is_space t)) g
      else None)"
proof -
  have "re_match (Star is_space #
            (map Lit ''70\<newline>'' @ [Star is_space, GroupEnd, Plus is_digit])) t g =
          re_match (map Lit ''70\<newline>'' @ [Star is_space, GroupEnd, Plus is_digit])
            (dropWhile is_space t) g"
    by (rule re_match_star_skip) (simp add: space_not_seven)
  also have "\<dots> = (if prefix ''70\<newline>'' (dropWhile is_space t)
      then re_match [Star is_space, GroupEnd, Plus is_digit]
             (drop (length ''70\<newline>'') (dropWhile is_space t)) g
      else None)"
    by (rule re_match_lits)
  finally show ?thesis by (simp add: eval_nat_numeral del: re_match.simps)
qed

lemma pattern_match:
  "re_match pattern s g =
     (if prefix ''$INSUNITS\<newline>'' s \<and>
         prefix ''70\<newline>'' (dropWhile is_space (drop 10 s))
      then (case dropWhile is_space (drop 3 (dropWhile is_space (drop 10 s))) of
              [] \<Rightarrow> None
            | d # ds \<Rightarrow> if is_digit d then Some (d # ds, dropWhile is_digit ds) else None)
      else None)"
proof -
  have "re_match pattern s g =
          re_match (map Lit ''$INSUNITS\<newline>'' @
            [Star is_space, Lit CHR ''7'', Lit CHR ''0'', Lit CHR ''\<newline>'',
             Star is_space, GroupEnd, Plus is_digit]) s g"
    by (simp add: pattern_def)
  also have "\<dots> = (if prefix ''$INSUNITS\<newline>'' s
      then re_match [Star is_space, Lit CHR ''7'', Lit CHR ''0'', Lit CHR ''\<newline>'',
             Star is_space, GroupEnd, Plus is_digit] (drop (length ''$INSUNITS\<newline>'') s) g
      else None)"
    by (rule re_match_lits)
  finally show ?thesis
    by (simp add: pattern_middle pattern_tail eval_nat_numeral del: re_match.simps)
qed

lemma dropWhile_stop: "r = [] \<or> \<not> P (hd r) \<Longrightarrow> dropWhile P r = r"
  by (cases r) auto

lemma not_space_seven: "\<not> is_space CHR ''7''"
  by (simp add: is_space_def)

lemma match_record:
  assumes w1: "\<forall>c \<in> set w1. is_space c" and w2: "\<forall>c \<in> set w2. is_space c"
    and ds: "ds \<noteq> []" "\<forall>c \<in> set ds. is_digit c"
    and r: "r = [] \<or> \<not> is_digit (hd r)"
  shows "re_match pattern (''$INSUNITS\<newline>'' @ w1 @ ''70\<newline>'' @ w2 @ ds @ r) g = Some (ds @ r, r)"
proof -
  from ds obtain d ds' where d: "ds = d # ds'" "is_digit d" "\<forall>c \<in> set ds'. is_digit c"
    by (cases ds) auto
  have nd: "\<not> is_space d" using d(2) space_not_digit by blast
  define t2 where "t2 = w2 @ ds @ r"
  define t1 where "t1 = w1 @ ''70\<newline>'' @ t2"
  have A: "re_match pattern (''$INSUNITS\<newline>'' @ t1) g =
     (if prefix ''70\<newline>'' (dropWhile is_space t1)
      then (case dropWhile is_space (drop 3 (dropWhile is_space t1)) of
              [] \<Rightarrow> None
            | d # ds \<Rightarrow> if is_digit d then Some (d # ds, dropWhile is_digit ds) else None)
      else None)"
    by (simp add: pattern_match)
  have B: "dropWhile is_space t1 = ''70\<newline>'' @ t2"
    unfolding t1_def using w1 by (simp add: not_space_seven)
  have C: "dropWhile is_space t2 = d # (ds' @ r)"
    unfolding t2_def using w2 nd by (simp add: d(1))
  have D: "dropWhile is_digit (ds' @ r) = r"
    using d(3) r by (simp add: dropWhile_stop)
  have "re_match pattern (''$INSUNITS\<newline>'' @ t1) g = Some (d # (ds' @ r), r)"
    unfolding A B by (simp add: C D d(2))
  then show ?thesis by (simp add: t1_def t2_def d(1))
qed

lemma match_recordD:
  assumes "re_match pattern s g0 = Some (g, r)"
  shows "\<exists>w1 w2 ds. s = ''$INSUNITS\<newline>'' @ w1 @ ''70\<newline>'' @ w2 @ ds @ r \<and>
           (\<forall>c \<in> set w1. is_space c) \<and> (\<forall>c \<in> set w2. is_space c) \<and>
           ds \<noteq> [] \<and> (\<forall>c \<in> set ds. is_digit c) \<and> g = ds @ r \<and>
           (r = [] \<or> \<not> is_digit (hd r))"
proof -
  define t where "t = drop 10 s"
  define v where "v = dropWhile is_space t"
  define u where "u = drop 3 v"
  define x where "x = dropWhile is_space u"
  have M: "re_match pattern s g0 =
     (if prefix ''$INSUNITS\<newline>'' s \<and> prefix ''70\<newline>'' v
      then (case x of [] \<Rightarrow> None
            | d # ds \<Rightarrow> if is_digit d then Some (d # ds, dropWhile is_digit ds) else None)
      else None)"
    unfolding t_def v_def u_def x_def by (rule pattern_match)
  have p: "prefix ''$INSUNITS\<newline>'' s \<and> prefix ''70\<newline>'' v"
  proof (rule ccontr)
    assume "\<not> ?thesis"
    with M have "re_match pattern s g0 = None" by (simp only: if_False)
    with assms show False by simp
  qed
  with M assms have X: "(case x of [] \<Rightarrow> None
            | d # ds \<Rightarrow> if is_digit d then Some (d # ds, dropWhile is_digit ds) else None)
          = Some (g, r)"
    by (simp del: re_match.simps)
  obtain d ds' where x: "x = d # ds'" and d: "is_digit d"
    and g: "g = d # ds'" and r: "r = dropWhile is_digit ds'"
  proof (cases x)
    case Nil
    with X show ?thesis by simp
  next
    case (Cons d ds')
    with X have "is_digit d \<and> g = d # ds' \<and> r = dropWhile is_digit ds'"
      by (cases "is_digit d") auto
    with Cons that show ?thesis by blast
  qed
  from p obtain t' where s': "s = ''$INSUNITS\<newline>'' @ t'" by (auto simp: prefix_def)
  then have "t = t'" by (simp add: t_def)
  with s' have s: "s = ''$INSUNITS\<newline>'' @ t" by simp
  from p obtain u' where v': "v = ''70\<newline>'' @ u'" by (auto simp: prefix_def)
  then have "u = u'" by (simp add: u_def)
  with v' have v: "v = ''70\<newline>'' @ u" by simp
  have t: "t = takeWhile is_space t @ v"
    unfolding v_def by simp
  have u2: "u = takeWhile is_space u @ x"
    unfolding x_def by simp
  have ds': "ds' = takeWhile is_digit ds' @ r"
    using r by simp
  define w1 where "w1 = takeWhile is_space t"
  define w2 where "w2 = takeWhile is_space u"
  define ds where "ds = d # takeWhile is_digit ds'"
  have xe: "x = ds @ r" using x ds' by (simp add: ds_def)
  have "t = w1 @ ''70\<newline>'' @ w2 @ ds @ r"
    using t v u2 xe unfolding w1_def w2_def by metis
  with s have "s = ''$INSUNITS\<newline>'' @ w1 @ ''70\<newline>'' @ w2 @ ds @ r" by metis
  moreover have "\<forall>c \<in> set w1. is_space c"
    unfolding w1_def by (auto dest: set_takeWhileD)
  moreover have "\<forall>c \<in> set w2. is_space c"
    unfolding w2_def by (auto dest: set_takeWhileD)
  moreover have "\<forall>c \<in> set ds. is_digit c"
    unfolding ds_def using d by (auto dest: set_takeWhileD)
  moreover have "ds \<noteq> []" by (simp add: ds_def)
  moreover have "g = ds @ r" using g x xe by simp
  moreover have "r = [] \<or> \<not> is_digit (hd r)"
    unfolding r by (metis hd_dropWhile)
  ultimately show ?thesis by blast
qed

lemma re_sub_unfold:
  "re_sub (c # cs) =
     (case re_match pattern (c # cs) (c # cs) of
        None \<Rightarrow> c # re_sub cs
      | Some (g, r) \<Rightarrow> take (length (c # cs) - length g) (c # cs) @ ''6'' @ re_sub r)"
  by simp

lemma re_sub_no_match:
  "re_match pattern (c # cs) (c # cs) = None \<Longrightarrow> re_sub (c # cs) = c # re_sub cs"
  by simp

lemma re_sub_record:
  assumes w1: "\<forall>c \<in> set w1. is_space c" and w2: "\<forall>c \<in> set w2. is_space c"
    and ds: "ds \<noteq> []" "\<forall>c \<in> set ds. is_digit c"
    and r: "r = [] \<or> \<not> is_digit (hd r)"
  shows "re_sub (''$INSUNITS\<newline>'' @ w1 @ ''70\<newline>'' @ w2 @ ds @ r) =
           ''$INSUNITS\<newline>'' @ w1 @ ''70\<newline>'' @ w2 @ ''6'' @ re_sub r"
proof -
  define g1 where "g1 = ''$INSUNITS\<newline>'' @ w1 @ ''70\<newline>'' @ w2"
  define g where "g = ds @ r"
  obtain cs where s: "g1 @ g = CHR ''$'' # cs" by (simp add: g1_def)
  have "re_match pattern (''$INSUNITS\<newline>'' @ w1 @ ''70\<newline>'' @ w2 @ ds @ r)
          (''$INSUNITS\<newline>'' @ w1 @ ''70\<newline>'' @ w2 @ ds @ r) = Some (ds @ r, r)"
    using assms by (rule match_record)
  then have m: "re_match pattern (g1 @ g) (g1 @ g) = Some (g, r)"
    by (simp add: g1_def g_def)
  have t: "take (length (g1 @ g) - length g) (g1 @ g) = g1" by simp
  have "re_sub (CHR ''$'' # cs) =
          take (length (CHR ''$'' # cs) - length g) (CHR ''$'' # cs) @ ''6'' @ re_sub r"
    using m unfolding s by (simp only: re_sub_unfold option.case prod.case)
  then have "re_sub (g1 @ g) = g1 @ ''6'' @ re_sub r"
    unfolding s [symmetric] t .
  then show ?thesis by (simp add: g1_def g_def del: re_sub.simps)
qed

lemma re_sub_not_dollar: "c \<noteq> CHR ''$'' \<Longrightarrow> re_sub (c # cs) = c # re_sub cs"
  by (simp add: pattern_match)

lemma re_sub_no_dollar: "CHR ''$'' \<notin> set u \<Longrightarrow> re_sub (u @ v) = u @ re_sub v"
proof (induction u)
  case Nil
  show ?case by simp
next
  case (Cons a u)
  then have "a \<noteq> CHR ''$''" by auto
  then have "re_sub (a # (u @ v)) = a # re_sub (u @ v)" by (rule re_sub_not_dollar)
  with Cons show ?case by (simp del: re_sub.simps)
qed

lemma re_sub_hd: "\<exists>t. re_sub (c # cs) = c # t"
proof (cases "re_match pattern (c # cs) (c # cs)")
  case None
  then show ?thesis by (simp add: re_sub_no_match del: re_sub.simps)
next
  case (Some a)
  obtain g r where a: "a = (g, r)" by (cases a)
  from match_recordD [OF Some [unfolded a]] obtain w1 w2 ds where
    s: "c # cs = ''$INSUNITS\<newline>'' @ w1 @ ''70\<newline>'' @ w2 @ ds @ r"
    and c: "\<forall>c \<in> set w1. is_space c" "\<forall>c \<in> set w2. is_space c"
       "ds \<noteq> []" "\<forall>c \<in> set ds. is_digit c" "r = [] \<or> \<not> is_digit (hd r)"
    by blast
  have "re_sub (c # cs) = ''$INSUNITS\<newline>'' @ w1 @ ''70\<newline>'' @ w2 @ ''6'' @ re_sub r"
    unfolding s using c by (rule re_sub_record)
  moreover from s have "c = CHR ''$''" by simp
  ultimately show ?thesis by (simp del: re_sub.simps)
qed

section \<open>The version rewrite\<close>

lemma py_in_sublist: "py_in sub s = sublist sub s"
  by (induction s) (simp_all add: sublist_Cons_right)

lemma sublist_drop: "sublist t (drop n s) \<Longrightarrow> sublist t s"
  by (metis append_take_drop_id sublist_append)

lemma rv_hit:
  "prefix ''AC1015'' (c # cs) \<Longrightarrow>
     replace_version (c # cs) = ''AC1021'' @ replace_version (drop 6 (c # cs))"
  by (simp only: replace_version.simps if_True)

lemma rv_miss:
  "\<not> prefix ''AC1015'' (c # cs) \<Longrightarrow> replace_version (c # cs) = c # replace_version cs"
  by (simp only: replace_version.simps if_False)

lemma rv_token: "replace_version (''AC1015'' @ r) = ''AC1021'' @ replace_version r"
proof -
  have "replace_version (CHR ''A'' # (''C1015'' @ r)) =
          ''AC1021'' @ replace_version (drop 6 (CHR ''A'' # (''C1015'' @ r)))"
    by (rule rv_hit) simp
  then show ?thesis by (simp del: replace_version.simps)
qed

lemma replace_version_id: "\<not> sublist ''AC1015'' s \<Longrightarrow> replace_version s = s"
proof (induction s)
  case Nil
  show ?case by simp
next
  case (Cons c cs)
  from Cons.prems have m: "\<not> prefix ''AC1015'' (c # cs)" and n: "\<not> sublist ''AC1015'' cs"
    unfolding sublist_Cons_right by blast+
  from n have "replace_version cs = cs" by (rule Cons.IH)
  then show ?case unfolding rv_miss [OF m] by simp
qed

lemma prefix_replace_version:
  "CHR ''A'' \<notin> set w \<Longrightarrow> prefix w (replace_version s) \<Longrightarrow> prefix w s"
proof (induction w arbitrary: s)
  case Nil
  show ?case by simp
next
  case (Cons x w)
  from Cons.prems have x: "x \<noteq> CHR ''A''" and w: "CHR ''A'' \<notin> set w" by auto
  show ?case
  proof (cases s)
    case Nil
    with Cons.prems show ?thesis by simp
  next
    case s: (Cons c cs)
    show ?thesis
    proof (cases "prefix ''AC1015'' (c # cs)")
      case True
      have "replace_version s = CHR ''A'' # (''C1021'' @ replace_version (drop 6 (c # cs)))"
        unfolding s rv_hit [OF True] by simp
      with Cons.prems(2) x show ?thesis by simp
    next
      case False
      have "replace_version s = c # replace_version cs"
        unfolding s by (rule rv_miss [OF False])
      with Cons.prems(2) have "x = c" and "prefix w (replace_version cs)" by simp_all
      with Cons.IH [OF w] s show ?thesis by simp
    qed
  qed
qed

lemma replace_version_no_prefix: "\<not> prefix ''AC1015'' (replace_version s)"
proof (cases s)
  case Nil
  then show ?thesis by simp
next
  case (Cons c cs)
  show ?thesis
  proof (cases "prefix ''AC1015'' (c # cs)")
    case True
    have "replace_version s = ''AC1021'' @ replace_version (drop 6 (c # cs))"
      unfolding Cons by (rule rv_hit [OF True])
    then show ?thesis by simp
  next
    case False
    have e: "replace_version s = c # replace_version cs"
      unfolding Cons by (rule rv_miss [OF False])
    have i: "prefix ''C1015'' (replace_version cs) \<Longrightarrow> prefix ''C1015'' cs"
      by (rule prefix_replace_version) simp_all
    show ?thesis
    proof
      assume "prefix ''AC1015'' (replace_version s)"
      then have "c = CHR ''A''" and "prefix ''C1015'' (replace_version cs)"
        unfolding e by simp_all
      with i have "prefix ''AC1015'' (c # cs)" by simp
      with False show False ..
    qed
  qed
qed

lemma replace_version_clean: "\<not> sublist ''AC1015'' (replace_version s)"
proof (induction s rule: replace_version.induct)
  case 1
  show ?case by simp
next
  case (2 c cs)
  show ?case
  proof (cases "prefix ''AC1015'' (c # cs)")
    case True
    define r where "r = replace_version (drop 6 (c # cs))"
    have e: "replace_version (c # cs) = ''AC1021'' @ r"
      unfolding r_def by (rule rv_hit [OF True])
    have "\<not> sublist ''AC1015'' r"
      unfolding r_def using 2 True by blast
    moreover have "\<not> prefix ''AC1015'' r"
      unfolding r_def by (rule replace_version_no_prefix)
    ultimately show ?thesis
      unfolding e by (cases r) (simp_all add: sublist_Cons_right)
  next
    case False
    have e: "replace_version (c # cs) = c # replace_version cs"
      by (rule rv_miss [OF False])
    have "\<not> sublist ''AC1015'' (replace_version cs)" using 2 False by blast
    moreover have "\<not> prefix ''AC1015'' (replace_version (c # cs))"
      by (rule replace_version_no_prefix)
    ultimately show ?thesis
      unfolding sublist_Cons_right e [symmetric] unfolding e sublist_Cons_right by blast
  qed
qed

lemma replace_version_length: "length (replace_version s) = length s"
proof (induction s rule: replace_version.induct)
  case 1
  show ?case by simp
next
  case (2 c cs)
  show ?case
  proof (cases "prefix ''AC1015'' (c # cs)")
    case True
    then obtain r where r: "c # cs = ''AC1015'' @ r" by (auto simp: prefix_def)
    then have d: "drop 6 (c # cs) = r" by simp
    have "length (replace_version (drop 6 (c # cs))) = length (drop 6 (c # cs))"
      using 2 True by blast
    then have "length (replace_version r) = length r" unfolding d .
    then show ?thesis unfolding r rv_token by simp
  next
    case False
    have "length (replace_version cs) = length cs" using 2 False by blast
    then show ?thesis unfolding rv_miss [OF False] by simp
  qed
qed

lemma no_straddle:
  assumes bf: "\<And>k. 0 < k \<Longrightarrow> k < length tok \<Longrightarrow> \<not> prefix (drop k tok) tok"
    and q: "\<not> prefix tok q" and ne: "q \<noteq> []"
  shows "\<not> prefix tok (q @ tok @ b)"
proof
  assume "prefix tok (q @ tok @ b)"
  with q obtain us where us: "tok = q @ us" "prefix us (tok @ b)"
    unfolding prefix_append by blast
  from us(1) q have "us \<noteq> []" by auto
  from ne have k: "0 < length q" by simp
  from us(1) \<open>us \<noteq> []\<close> have k2: "length q < length tok" by auto
  from us(1) have d: "drop (length q) tok = us" by auto
  have l: "length us \<le> length tok" using us(1) by auto
  have "prefix tok (tok @ b)" by simp
  from us(2) this l have "prefix us tok" by (rule prefix_length_prefix)
  with bf [OF k k2] d show False by simp
qed

lemma small_cases:
  "0 < k \<Longrightarrow> k < 6 \<Longrightarrow> k = Suc 0 \<or> k = 2 \<or> k = 3 \<or> k = 4 \<or> k = (5::nat)"
  by arith

lemma bf_version:
  assumes "0 < k" and "k < length ''AC1015''"
  shows "\<not> prefix (drop k ''AC1015'') ''AC1015''"
proof -
  from assms have "k = Suc 0 \<or> k = 2 \<or> k = 3 \<or> k = 4 \<or> k = 5"
    by (intro small_cases) simp_all
  then show ?thesis by (elim disjE) simp_all
qed



lemma replace_version_append:
  "replace_version (a @ ''AC1015'' @ b) =
     replace_version a @ ''AC1021'' @ replace_version b"
proof (induction a rule: replace_version.induct)
  case 1
  show ?case using rv_token [of b] by simp
next
  case (2 c cs)
  show ?case
  proof (cases "prefix ''AC1015'' (c # cs)")
    case True
    then obtain r where r: "c # cs = ''AC1015'' @ r" by (auto simp: prefix_def)
    then have d: "drop 6 (c # cs) = r" by simp
    have "replace_version (drop 6 (c # cs) @ ''AC1015'' @ b) =
            replace_version (drop 6 (c # cs)) @ ''AC1021'' @ replace_version b"
      using 2 True by blast
    then have ih: "replace_version (r @ ''AC1015'' @ b) =
            replace_version r @ ''AC1021'' @ replace_version b"
      unfolding d .
    have "replace_version ((''AC1015'' @ r) @ ''AC1015'' @ b) =
            ''AC1021'' @ replace_version (r @ ''AC1015'' @ b)"
      using rv_token [of "r @ ''AC1015'' @ b"] by simp
    also have "\<dots> = (''AC1021'' @ replace_version r) @ ''AC1021'' @ replace_version b"
      unfolding ih by simp
    finally show ?thesis unfolding r rv_token .
  next
    case False
    have ih: "replace_version (cs @ ''AC1015'' @ b) =
            replace_version cs @ ''AC1021'' @ replace_version b"
      using 2 False by blast
    have ne: "c # cs \<noteq> []" by simp
    have "\<not> prefix ''AC1015'' ((c # cs) @ ''AC1015'' @ b)"
      using bf_version False ne by (rule no_straddle)
    then have "\<not> prefix ''AC1015'' (c # (cs @ ''AC1015'' @ b))" by simp
    then have "replace_version (c # (cs @ ''AC1015'' @ b)) =
            c # replace_version (cs @ ''AC1015'' @ b)"
      by (rule rv_miss)
    then show ?thesis
      unfolding ih rv_miss [OF False] by simp
  qed
qed


lemma find_first_None: "find_first tok s = None \<longleftrightarrow> \<not> sublist tok s"
  by (induction s) (auto simp: sublist_Cons_right)

lemma find_first_Some:
  "find_first tok s = Some k \<Longrightarrow> k \<le> length s \<and> prefix tok (drop k s)"
proof (induction s arbitrary: k)
  case Nil
  then show ?case by (simp split: if_splits)
next
  case (Cons c cs)
  show ?case
  proof (cases "prefix tok (c # cs)")
    case True
    with Cons.prems show ?thesis by simp
  next
    case False
    with Cons.prems obtain j where "find_first tok cs = Some j" "k = Suc j"
      by auto
    with Cons.IH [of j] show ?thesis by simp
  qed
qed

section \<open>The unit directive\<close>

lemma nine_cases:
  "0 < k \<Longrightarrow> k < 10 \<Longrightarrow>
   k = Suc 0 \<or> k = 2 \<or> k = 3 \<or> k = 4 \<or> k = 5 \<or> k = 6 \<or> k = 7 \<or> k = 8 \<or> k = (9::nat)"
  by arith

lemma bf_name:
  assumes "0 < k" and "k < length ''$INSUNITS\<newline>''"
  shows "\<not> prefix (drop k ''$INSUNITS\<newline>'') ''$INSUNITS\<newline>''"
proof -
  from assms have "k = Suc 0 \<or> k = 2 \<or> k = 3 \<or> k = 4 \<or> k = 5 \<or> k = 6 \<or> k = 7 \<or>
      k = 8 \<or> k = 9"
    by (intro nine_cases) simp_all
  then show ?thesis by (elim disjE) simp_all
qed

lemma name_prefix: "prefix ''$INSUNITS\<newline>'' s \<Longrightarrow> prefix ''$INSUNITS'' s"
  by (auto simp: prefix_def)

lemma no_match_without_name:
  "\<not> prefix ''$INSUNITS\<newline>'' s \<Longrightarrow> re_match pattern s g = None"
  by (simp add: pattern_match)

lemma re_sub_id: "\<not> sublist ''$INSUNITS'' s \<Longrightarrow> re_sub s = s"
proof (induction s)
  case Nil
  show ?case by simp
next
  case (Cons c cs)
  from Cons.prems have m: "\<not> prefix ''$INSUNITS'' (c # cs)" and n: "\<not> sublist ''$INSUNITS'' cs"
    unfolding sublist_Cons_right by blast+
  from m have "\<not> prefix ''$INSUNITS\<newline>'' (c # cs)" using name_prefix by blast
  then have "re_match pattern (c # cs) (c # cs) = None" by (rule no_match_without_name)
  then have "re_sub (c # cs) = c # re_sub cs" by (rule re_sub_no_match)
  with Cons.IH [OF n] show ?case by simp
qed

lemma re_sub_skip:
  "\<not> sublist ''$INSUNITS'' pre \<Longrightarrow>
     re_sub (pre @ ''$INSUNITS\<newline>'' @ x) = pre @ re_sub (''$INSUNITS\<newline>'' @ x)"
proof (induction pre)
  case Nil
  show ?case by simp
next
  case (Cons c pre)
  from Cons.prems have m: "\<not> prefix ''$INSUNITS'' (c # pre)"
    and n: "\<not> sublist ''$INSUNITS'' pre"
    unfolding sublist_Cons_right by blast+
  from m have m': "\<not> prefix ''$INSUNITS\<newline>'' (c # pre)" using name_prefix by blast
  have ne: "c # pre \<noteq> []" by simp
  have "\<not> prefix ''$INSUNITS\<newline>'' ((c # pre) @ ''$INSUNITS\<newline>'' @ x)"
    using bf_name m' ne by (rule no_straddle)
  then have "re_match pattern (c # (pre @ ''$INSUNITS\<newline>'' @ x))
               (c # (pre @ ''$INSUNITS\<newline>'' @ x)) = None"
    using no_match_without_name by simp
  then have "re_sub (c # (pre @ ''$INSUNITS\<newline>'' @ x)) =
               c # re_sub (pre @ ''$INSUNITS\<newline>'' @ x)"
    by (rule re_sub_no_match)
  with Cons.IH [OF n] show ?case by (simp del: re_sub.simps)
qed

lemma set_units_record:
  assumes pre: "\<not> sublist ''$INSUNITS'' pre" and post: "\<not> sublist ''$INSUNITS'' post"
    and w1: "\<forall>c \<in> set w1. is_space c" and w2: "\<forall>c \<in> set w2. is_space c"
    and ds: "ds \<noteq> []" "\<forall>c \<in> set ds. is_digit c"
    and r: "post = [] \<or> \<not> is_digit (hd post)"
  shows "set_units (pre @ ''$INSUNITS\<newline>'' @ w1 @ ''70\<newline>'' @ w2 @ ds @ post) =
           pre @ ''$INSUNITS\<newline>'' @ w1 @ ''70\<newline>'' @ w2 @ ''6'' @ post"
proof -
  define x where "x = w1 @ ''70\<newline>'' @ w2 @ ds @ post"
  have "sublist ''$INSUNITS'' (pre @ ''$INSUNITS'' @ (CHR ''\<newline>'' # x))"
    by (rule sublist_appendI)
  then have i: "py_in ''$INSUNITS'' (pre @ ''$INSUNITS\<newline>'' @ x)"
    by (simp add: py_in_sublist)
  have "re_sub (pre @ ''$INSUNITS\<newline>'' @ x) = pre @ re_sub (''$INSUNITS\<newline>'' @ x)"
    using pre by (rule re_sub_skip)
  also have "re_sub (''$INSUNITS\<newline>'' @ x) =
      ''$INSUNITS\<newline>'' @ w1 @ ''70\<newline>'' @ w2 @ ''6'' @ re_sub post"
    unfolding x_def using w1 w2 ds r by (rule re_sub_record)
  also have "re_sub post = post" using post by (rule re_sub_id)
  finally have "re_sub (pre @ ''$INSUNITS\<newline>'' @ x) =
      pre @ ''$INSUNITS\<newline>'' @ w1 @ ''70\<newline>'' @ w2 @ ''6'' @ post" .
  with i have "set_units (pre @ ''$INSUNITS\<newline>'' @ x) =
      pre @ ''$INSUNITS\<newline>'' @ w1 @ ''70\<newline>'' @ w2 @ ''6'' @ post"
    by (simp only: set_units_def if_True)
  then show ?thesis unfolding x_def .
qed

lemma py_find_from:
  "0 \<le> st \<Longrightarrow> st \<le> int (length s) \<Longrightarrow>
     py_find s sub st =
       (case find_first sub (drop (nat st) s) of None \<Rightarrow> - 1 | Some k \<Rightarrow> st + int k)"
  by (simp add: py_find_def Let_def)

lemma find_first_short: "length t < length sub \<Longrightarrow> find_first sub t = None"
proof (rule ccontr)
  assume l: "length t < length sub" and "find_first sub t \<noteq> None"
  then obtain k where "find_first sub t = Some k" by auto
  then have "prefix sub (drop k t)" using find_first_Some by blast
  then have "length sub \<le> length (drop k t)" by (rule prefix_length_le)
  with l show False by simp
qed

lemma py_find_minus_one:
  assumes "2 \<le> length sub"
  shows "py_find s sub (- 1) = - 1"
proof -
  define st where "st = max 0 (int (length s) - 1)"
  have st: "0 \<le> st" "st \<le> int (length s)" by (simp_all add: st_def)
  have "length (drop (nat st) s) \<le> 1" by (simp add: st_def)
  with assms have "find_first sub (drop (nat st) s) = None"
    by (intro find_first_short) simp
  then show ?thesis
    using st by (simp add: py_find_def Let_def st_def [symmetric])
qed

lemma sublist_endsec_header: "sublist ''ENDSEC'' (''HEADER'' @ x) = sublist ''ENDSEC'' x"
  by (simp add: sublist_Cons_right)

lemma header_end_has_pair:
  "(py_find s ''ENDSEC'' (py_find s ''HEADER'' 0) > - 1) = has_pair s"
proof (cases "find_first ''HEADER'' s")
  case None
  then have "py_find s ''HEADER'' 0 = - 1" by (simp add: py_find_from)
  moreover have "py_find s ''ENDSEC'' (- 1) = - 1" by (rule py_find_minus_one) simp
  ultimately show ?thesis using None by (simp add: has_pair_def)
next
  case (Some i)
  then have i: "i \<le> length s" "prefix ''HEADER'' (drop i s)"
    using find_first_Some by blast+
  then obtain x where x: "drop i s = ''HEADER'' @ x" by (auto simp: prefix_def)
  then have "drop 6 (drop i s) = x" by simp
  then have x6: "drop (i + 6) s = x" by (simp add: add.commute)
  have h: "py_find s ''HEADER'' 0 = int i" using Some by (simp add: py_find_from)
  have "py_find s ''ENDSEC'' (int i) =
          (case find_first ''ENDSEC'' (drop i s) of None \<Rightarrow> - 1 | Some k \<Rightarrow> int i + int k)"
    using i(1) py_find_from [of "int i" s "''ENDSEC''"] by simp
  then have "(py_find s ''ENDSEC'' (int i) > - 1) = (find_first ''ENDSEC'' (drop i s) \<noteq> None)"
    by (cases "find_first ''ENDSEC'' (drop i s)") simp_all
  also have "\<dots> = sublist ''ENDSEC'' (drop i s)" by (simp add: find_first_None)
  also have "\<dots> = sublist ''ENDSEC'' x" unfolding x by (rule sublist_endsec_header)
  finally show ?thesis
    unfolding h by (simp add: has_pair_def Some x6 py_in_sublist)
qed

lemma set_units_no_pair:
  assumes "\<not> sublist ''$INSUNITS'' s" and "\<not> has_pair s"
  shows "set_units s = s"
proof -
  from assms(2) have "\<not> py_find s ''ENDSEC'' (py_find s ''HEADER'' 0) > - 1"
    by (simp add: header_end_has_pair)
  with assms(1) show ?thesis
    by (simp add: set_units_def py_in_sublist Let_def)
qed



lemma sublist_sep:
  assumes "c \<notin> set t" and "t \<noteq> []"
  shows "sublist t (a @ c # b) = (sublist t a \<or> sublist t b)"
proof
  assume "sublist t (a @ c # b)"
  then consider "sublist t a" | "sublist t (c # b)"
    | xs1 xs2 where "t = xs1 @ xs2" "suffix xs1 a" "prefix xs2 (c # b)"
    unfolding sublist_append by blast
  then show "sublist t a \<or> sublist t b"
  proof cases
    case 1
    then show ?thesis ..
  next
    case 2
    then have "prefix t (c # b) \<or> sublist t b" by (simp only: sublist_Cons_right)
    moreover have "\<not> prefix t (c # b)"
      using assms by (cases t) auto
    ultimately show ?thesis by blast
  next
    case 3
    show ?thesis
    proof (cases xs2)
      case Nil
      with 3 have "suffix t a" by simp
      then show ?thesis by blast
    next
      case (Cons x xs)
      with 3(3) have "x = c" by simp
      with 3(1) Cons assms(1) show ?thesis by simp
    qed
  qed
next
  assume "sublist t a \<or> sublist t b"
  then show "sublist t (a @ c # b)"
    by (metis sublist_append sublist_Cons_right)
qed

lemma re_sub_clean_gen:
  "sublist ''AC1015'' (p @ re_sub s) \<Longrightarrow> sublist ''AC1015'' (p @ s)"
proof (induction s arbitrary: p rule: re_sub.induct)
  case 1
  then show ?case by simp
next
  case (2 c cs)
  show ?case
  proof (cases "re_match pattern (c # cs) (c # cs)")
    case None
    then have e: "re_sub (c # cs) = c # re_sub cs" by (rule re_sub_no_match)
    from "2.prems" have "sublist ''AC1015'' ((p @ [c]) @ re_sub cs)"
      unfolding e by simp
    then have "sublist ''AC1015'' ((p @ [c]) @ cs)"
      using "2.IH"(1) [OF None] by blast
    then show ?thesis by simp
  next
    case (Some a)
    obtain g r where a: "a = (g, r)" by (cases a)
    from match_recordD [OF Some [unfolded a]] obtain w1 w2 ds where
      s: "c # cs = ''$INSUNITS\<newline>'' @ w1 @ ''70\<newline>'' @ w2 @ ds @ r"
      and c: "\<forall>c \<in> set w1. is_space c" "\<forall>c \<in> set w2. is_space c"
         "ds \<noteq> []" "\<forall>c \<in> set ds. is_digit c" "r = [] \<or> \<not> is_digit (hd r)"
      by blast
    define G where "G = ''$INSUNITS\<newline>'' @ w1 @ ''70\<newline>'' @ w2"
    have "re_sub (c # cs) =
        ''$INSUNITS\<newline>'' @ w1 @ ''70\<newline>'' @ w2 @ ''6'' @ re_sub r"
      unfolding s using c by (rule re_sub_record)
    then have e: "re_sub (c # cs) = G @ ''6'' @ re_sub r"
      by (simp add: G_def del: re_sub.simps)
    from "2.prems" have "sublist ''AC1015'' ((p @ G @ ''6'') @ re_sub r)"
      unfolding e by simp
    then have "sublist ''AC1015'' ((p @ G @ ''6'') @ r)"
      using "2.IH"(2) [OF Some a [symmetric]] by blast
    then have "sublist ''AC1015'' ((p @ G) @ CHR ''6'' # r)" by simp
    then have "sublist ''AC1015'' (p @ G) \<or> sublist ''AC1015'' r"
      by (subst (asm) sublist_sep) simp_all
    then have "sublist ''AC1015'' ((p @ G) @ ds @ r)"
      by (metis sublist_append)
    then show ?thesis unfolding s G_def by simp
  qed
qed

lemma re_sub_clean: "\<not> sublist ''AC1015'' s \<Longrightarrow> \<not> sublist ''AC1015'' (re_sub s)"
  using re_sub_clean_gen [of "[]" s] by auto

lemma units_def_clean: "sublist ''AC1015'' (units_def @ y) = sublist ''AC1015'' y"
  by (simp add: units_def_def sublist_Cons_right)

lemma insert_clean:
  assumes "\<not> sublist ''AC1015'' s"
  shows "\<not> sublist ''AC1015'' (take h s @ units_def @ drop h s)"
proof
  assume a: "sublist ''AC1015'' (take h s @ units_def @ drop h s)"
  obtain u where u: "units_def = CHR ''\<newline>'' # u" by (simp add: units_def_def)
  from a have "sublist ''AC1015'' (take h s @ CHR ''\<newline>'' # (u @ drop h s))"
    unfolding u by simp
  then have "sublist ''AC1015'' (take h s) \<or> sublist ''AC1015'' (u @ drop h s)"
    by (subst (asm) sublist_sep) simp_all
  moreover have "sublist ''AC1015'' (u @ drop h s) \<Longrightarrow> sublist ''AC1015'' (drop h s)"
  proof -
    assume "sublist ''AC1015'' (u @ drop h s)"
    then have "sublist ''AC1015'' (units_def @ drop h s)"
      unfolding u by (simp add: sublist_Cons_right)
    then show ?thesis by (simp only: units_def_clean)
  qed
  ultimately have "sublist ''AC1015'' (take h s @ drop h s)"
    by (metis sublist_append)
  with assms show False by simp
qed

lemma set_units_clean:
  assumes "\<not> sublist ''AC1015'' s"
  shows "\<not> sublist ''AC1015'' (set_units s)"
proof (cases "py_in ''$INSUNITS'' s")
  case True
  then have "set_units s = re_sub s" by (simp add: set_units_def)
  with assms re_sub_clean show ?thesis by simp
next
  case False
  define h where "h = py_find s ''ENDSEC'' (py_find s ''HEADER'' 0)"
  show ?thesis
  proof (cases "h > - 1")
    case True
    with False have "set_units s = take (nat h) s @ units_def @ drop (nat h) s"
      by (simp add: set_units_def Let_def h_def)
    with assms insert_clean show ?thesis by simp
  next
    case h: False
    with False have "set_units s = s"
      by (simp add: set_units_def Let_def h_def)
    with assms show ?thesis by simp
  qed
qed

lemma space_not_dollar: "is_space c \<Longrightarrow> c \<noteq> CHR ''$''"
  by (auto simp: is_space_def)

lemma digit_not_dollar: "is_digit c \<Longrightarrow> c \<noteq> CHR ''$''"
  by (auto simp: is_digit_def)

lemma re_sub_dollar: "\<exists>t. re_sub (CHR ''$'' # cs) = CHR ''$'' # t"
  by (rule re_sub_hd)

lemma re_sub_prefix_inv:
  "CHR ''$'' \<notin> set u \<Longrightarrow> re_sub cs = u @ x \<Longrightarrow> \<exists>y. cs = u @ y \<and> re_sub y = x"
proof (induction u arbitrary: cs)
  case Nil
  then show ?case by simp
next
  case (Cons a u)
  from Cons.prems(1) have a: "a \<noteq> CHR ''$''" and u: "CHR ''$'' \<notin> set u" by auto
  show ?case
  proof (cases cs)
    case Nil
    with Cons.prems(2) show ?thesis by simp
  next
    case cs: (Cons c cs')
    obtain t where t: "re_sub (c # cs') = c # t" using re_sub_hd by blast
    with Cons.prems(2) cs have "c = a" by simp
    with a have "re_sub (c # cs') = c # re_sub cs'" by (intro re_sub_not_dollar) simp
    with Cons.prems(2) cs have "re_sub cs' = u @ x" by simp
    from Cons.IH [OF u this] obtain y where "cs' = u @ y" "re_sub y = x" by blast
    with cs \<open>c = a\<close> show ?thesis by simp
  qed
qed

lemma match_record_any:
  assumes w1: "\<forall>c \<in> set w1. is_space c" and w2: "\<forall>c \<in> set w2. is_space c"
    and ds: "ds \<noteq> []" "\<forall>c \<in> set ds. is_digit c"
  shows "re_match pattern (''$INSUNITS\<newline>'' @ w1 @ ''70\<newline>'' @ w2 @ ds @ y) g \<noteq> None"
proof -
  define ds' where "ds' = ds @ takeWhile is_digit y"
  define r where "r = dropWhile is_digit y"
  have y: "ds @ y = ds' @ r" by (simp add: ds'_def r_def)
  have 1: "ds' \<noteq> []" using ds(1) by (simp add: ds'_def)
  have 2: "\<forall>c \<in> set ds'. is_digit c"
    using ds(2) by (auto simp: ds'_def dest: set_takeWhileD)
  have 3: "r = [] \<or> \<not> is_digit (hd r)"
    unfolding r_def by (metis hd_dropWhile)
  have "re_match pattern (''$INSUNITS\<newline>'' @ w1 @ ''70\<newline>'' @ w2 @ ds' @ r) g =
          Some (ds' @ r, r)"
    using w1 w2 1 2 3 by (rule match_record)
  then show ?thesis unfolding y [symmetric] by simp
qed

lemma no_match_stable:
  assumes "re_match pattern (c # cs) (c # cs) = None"
  shows "re_match pattern (c # re_sub cs) (c # re_sub cs) = None"
proof (rule ccontr)
  assume "re_match pattern (c # re_sub cs) (c # re_sub cs) \<noteq> None"
  then obtain g r where "re_match pattern (c # re_sub cs) (c # re_sub cs) = Some (g, r)"
    by auto
  from match_recordD [OF this] obtain w1 w2 ds where
    s: "c # re_sub cs = ''$INSUNITS\<newline>'' @ w1 @ ''70\<newline>'' @ w2 @ ds @ r"
    and c: "\<forall>c \<in> set w1. is_space c" "\<forall>c \<in> set w2. is_space c"
       "ds \<noteq> []" "\<forall>c \<in> set ds. is_digit c"
    by blast
  define u where "u = ''INSUNITS\<newline>'' @ w1 @ ''70\<newline>'' @ w2 @ ds"
  from s have cd: "c = CHR ''$''" and rs: "re_sub cs = u @ r"
    by (simp_all add: u_def)
  have nd: "\<not> is_space CHR ''$''" "\<not> is_digit CHR ''$''"
    by (simp_all add: is_space_def is_digit_def)
  have "CHR ''$'' \<notin> set u"
    using c nd by (auto simp: u_def)
  from re_sub_prefix_inv [OF this rs] obtain y where y: "cs = u @ y" by blast
  have "re_match pattern (''$INSUNITS\<newline>'' @ w1 @ ''70\<newline>'' @ w2 @ ds @ y)
          (c # cs) \<noteq> None"
    using c by (rule match_record_any)
  moreover have "c # cs = ''$INSUNITS\<newline>'' @ w1 @ ''70\<newline>'' @ w2 @ ds @ y"
    by (simp add: cd y u_def)
  ultimately show False using assms by simp
qed

lemma re_sub_first_not_digit:
  assumes "r = [] \<or> \<not> is_digit (hd r)"
  shows "re_sub r = [] \<or> \<not> is_digit (hd (re_sub r))"
proof (cases r)
  case Nil
  then show ?thesis by simp
next
  case (Cons c cs)
  obtain t where "re_sub (c # cs) = c # t" using re_sub_hd by blast
  with assms Cons show ?thesis by simp
qed

lemma re_sub_idem: "re_sub (re_sub s) = re_sub s"
proof (induction s rule: re_sub.induct)
  case 1
  show ?case by simp
next
  case (2 c cs)
  show ?case
  proof (cases "re_match pattern (c # cs) (c # cs)")
    case None
    then have e: "re_sub (c # cs) = c # re_sub cs" by (rule re_sub_no_match)
    have "re_match pattern (c # re_sub cs) (c # re_sub cs) = None"
      using None by (rule no_match_stable)
    then have "re_sub (c # re_sub cs) = c # re_sub (re_sub cs)" by (rule re_sub_no_match)
    also have "re_sub (re_sub cs) = re_sub cs" using "2.IH"(1) [OF None] .
    finally show ?thesis unfolding e .
  next
    case (Some a)
    obtain g r where a: "a = (g, r)" by (cases a)
    from match_recordD [OF Some [unfolded a]] obtain w1 w2 ds where
      s: "c # cs = ''$INSUNITS\<newline>'' @ w1 @ ''70\<newline>'' @ w2 @ ds @ r"
      and c: "\<forall>c \<in> set w1. is_space c" "\<forall>c \<in> set w2. is_space c"
         "ds \<noteq> []" "\<forall>c \<in> set ds. is_digit c" "r = [] \<or> \<not> is_digit (hd r)"
      by blast
    have e: "re_sub (c # cs) =
        ''$INSUNITS\<newline>'' @ w1 @ ''70\<newline>'' @ w2 @ ''6'' @ re_sub r"
      unfolding s using c by (rule re_sub_record)
    have six: "''6'' \<noteq> []" "\<forall>c \<in> set ''6''. is_digit c" by (simp_all add: is_digit_def)
    have nd: "re_sub r = [] \<or> \<not> is_digit (hd (re_sub r))"
      using c(5) by (rule re_sub_first_not_digit)
    have "re_sub (''$INSUNITS\<newline>'' @ w1 @ ''70\<newline>'' @ w2 @ ''6'' @ re_sub r) =
        ''$INSUNITS\<newline>'' @ w1 @ ''70\<newline>'' @ w2 @ ''6'' @ re_sub (re_sub r)"
      using c(1,2) six nd by (rule re_sub_record)
    also have "re_sub (re_sub r) = re_sub r" using "2.IH"(2) [OF Some a [symmetric]] .
    finally show ?thesis unfolding e .
  qed
qed

lemma re_sub_keeps_name: "sublist ''$INSUNITS'' s \<Longrightarrow> sublist ''$INSUNITS'' (re_sub s)"
proof (induction s rule: re_sub.induct)
  case 1
  then show ?case by simp
next
  case (2 c cs)
  show ?case
  proof (cases "re_match pattern (c # cs) (c # cs)")
    case None
    then have e: "re_sub (c # cs) = c # re_sub cs" by (rule re_sub_no_match)
    from "2.prems" consider "prefix ''$INSUNITS'' (c # cs)" | "sublist ''$INSUNITS'' cs"
      unfolding sublist_Cons_right by blast
    then show ?thesis
    proof cases
      case 1
      then obtain x where x: "c # cs = ''$INSUNITS'' @ x" by (auto simp: prefix_def)
      then have cs: "cs = ''INSUNITS'' @ x" and cd: "c = CHR ''$''" by simp_all
      have r: "re_sub cs = ''INSUNITS'' @ re_sub x"
        unfolding cs by (rule re_sub_no_dollar) simp
      have "re_sub (c # cs) = c # (''INSUNITS'' @ re_sub x)"
        unfolding e r ..
      then have "re_sub (c # cs) = ''$INSUNITS'' @ re_sub x"
        by (simp add: cd del: re_sub.simps)
      then show ?thesis by (metis sublist_append_rightI)
    next
      case 2
      with "2.IH"(1) [OF None] show ?thesis unfolding e sublist_Cons_right by blast
    qed
  next
    case (Some a)
    obtain g r where a: "a = (g, r)" by (cases a)
    from match_recordD [OF Some [unfolded a]] obtain w1 w2 ds where
      s: "c # cs = ''$INSUNITS\<newline>'' @ w1 @ ''70\<newline>'' @ w2 @ ds @ r"
      and c: "\<forall>c \<in> set w1. is_space c" "\<forall>c \<in> set w2. is_space c"
         "ds \<noteq> []" "\<forall>c \<in> set ds. is_digit c" "r = [] \<or> \<not> is_digit (hd r)"
      by blast
    have "re_sub (c # cs) =
        ''$INSUNITS\<newline>'' @ w1 @ ''70\<newline>'' @ w2 @ ''6'' @ re_sub r"
      unfolding s using c by (rule re_sub_record)
    then have "re_sub (c # cs) =
        ''$INSUNITS'' @ (CHR ''\<newline>'' # w1 @ ''70\<newline>'' @ w2 @ ''6'' @ re_sub r)"
      by (simp del: re_sub.simps)
    then show ?thesis by (metis sublist_append_rightI)
  qed
qed

lemma sublist_take: "sublist t (take n s) \<Longrightarrow> sublist t s"
  by (metis append_take_drop_id sublist_append)

lemma units_def_has_name: "sublist ''$INSUNITS'' (a @ units_def @ b)"
proof -
  have "a @ units_def @ b = (a @ ''\<newline>'') @ ''$INSUNITS'' @ (''\<newline> 70\<newline>     6\<newline>'' @ b)"
    by (simp add: units_def_def)
  then show ?thesis by (metis sublist_appendI)
qed

lemma re_sub_inserted:
  assumes "\<not> sublist ''$INSUNITS'' s"
  shows "re_sub (take h s @ units_def @ drop h s) = take h s @ units_def @ drop h s"
proof -
  define x where "x = take h s"
  define y where "y = drop h s"
  have x: "\<not> sublist ''$INSUNITS'' x" using assms sublist_take unfolding x_def by blast
  have y: "\<not> sublist ''$INSUNITS'' y" using assms sublist_drop unfolding y_def by blast
  have "sublist ''$INSUNITS'' (x @ CHR ''\<newline>'' # []) = (sublist ''$INSUNITS'' x \<or> sublist ''$INSUNITS'' [])"
    by (rule sublist_sep) simp_all
  with x have x': "\<not> sublist ''$INSUNITS'' (x @ ''\<newline>'')" by simp
  have sp: "\<forall>c \<in> set '' ''. is_space c" "\<forall>c \<in> set ''     ''. is_space c"
    by (simp_all add: is_space_def)
  have six: "''6'' \<noteq> []" "\<forall>c \<in> set ''6''. is_digit c" by (simp_all add: is_digit_def)
  have nl: "CHR ''\<newline>'' # y = [] \<or> \<not> is_digit (hd (CHR ''\<newline>'' # y))"
    by (simp add: is_digit_def)
  have e: "x @ units_def @ y =
      (x @ ''\<newline>'') @ ''$INSUNITS\<newline>'' @ ('' '' @ ''70\<newline>'' @ ''     '' @ ''6'' @ (CHR ''\<newline>'' # y))"
    by (simp add: units_def_def)
  have "re_sub ((x @ ''\<newline>'') @ ''$INSUNITS\<newline>'' @
          ('' '' @ ''70\<newline>'' @ ''     '' @ ''6'' @ (CHR ''\<newline>'' # y))) =
        (x @ ''\<newline>'') @ re_sub (''$INSUNITS\<newline>'' @
          ('' '' @ ''70\<newline>'' @ ''     '' @ ''6'' @ (CHR ''\<newline>'' # y)))"
    using x' by (rule re_sub_skip)
  also have "re_sub (''$INSUNITS\<newline>'' @ '' '' @ ''70\<newline>'' @ ''     '' @ ''6'' @
                (CHR ''\<newline>'' # y)) =
      ''$INSUNITS\<newline>'' @ '' '' @ ''70\<newline>'' @ ''     '' @ ''6'' @ re_sub (CHR ''\<newline>'' # y)"
    using sp six nl by (rule re_sub_record)
  also have "re_sub (CHR ''\<newline>'' # y) = CHR ''\<newline>'' # re_sub y"
    by (rule re_sub_not_dollar) simp
  also have "re_sub y = y" using y by (rule re_sub_id)
  finally have "re_sub (x @ units_def @ y) = x @ units_def @ y"
    unfolding e .
  then show ?thesis unfolding x_def y_def .
qed

lemma set_units_idem: "set_units (set_units s) = set_units s"
proof (cases "py_in ''$INSUNITS'' s")
  case True
  then have e: "set_units s = re_sub s" by (simp add: set_units_def)
  from True have "sublist ''$INSUNITS'' (re_sub s)"
    unfolding py_in_sublist by (rule re_sub_keeps_name)
  then have "set_units (re_sub s) = re_sub (re_sub s)"
    by (simp add: set_units_def py_in_sublist)
  then show ?thesis unfolding e re_sub_idem .
next
  case False
  define h where "h = py_find s ''ENDSEC'' (py_find s ''HEADER'' 0)"
  show ?thesis
  proof (cases "h > - 1")
    case True
    define out where "out = take (nat h) s @ units_def @ drop (nat h) s"
    from True False have e: "set_units s = out"
      by (simp add: set_units_def Let_def h_def out_def)
    have "sublist ''$INSUNITS'' out" unfolding out_def by (rule units_def_has_name)
    then have "set_units out = re_sub out" by (simp add: set_units_def py_in_sublist)
    also have "\<dots> = out"
      unfolding out_def using False unfolding py_in_sublist by (rule re_sub_inserted)
    finally show ?thesis unfolding e .
  next
    case h: False
    with False have "set_units s = s"
      by (simp add: set_units_def Let_def h_def)
    then show ?thesis by simp
  qed
qed

lemma set_units_name:
  "sublist ''$INSUNITS'' (set_units s) = (sublist ''$INSUNITS'' s \<or> has_pair s)"
proof (cases "sublist ''$INSUNITS'' s")
  case True
  then have "set_units s = re_sub s" by (simp add: set_units_def py_in_sublist)
  with True re_sub_keeps_name show ?thesis by simp
next
  case False
  show ?thesis
  proof (cases "has_pair s")
    case True
    then have "py_find s ''ENDSEC'' (py_find s ''HEADER'' 0) > - 1"
      by (simp only: header_end_has_pair)
    with False have "set_units s =
        take (nat (py_find s ''ENDSEC'' (py_find s ''HEADER'' 0))) s @ units_def @
        drop (nat (py_find s ''ENDSEC'' (py_find s ''HEADER'' 0))) s"
      by (simp add: set_units_def py_in_sublist Let_def)
    with True units_def_has_name show ?thesis by simp
  next
    case np: False
    with False have "set_units s = s" by (rule set_units_no_pair)
    with False np show ?thesis by simp
  qed
qed

section \<open>What the version rewrite leaves alone\<close>

lemma replace_version_same_text: "list_all2 same_text s (replace_version s)"
proof (induction s rule: replace_version.induct)
  case 1
  show ?case by simp
next
  case (2 c cs)
  show ?case
  proof (cases "prefix ''AC1015'' (c # cs)")
    case True
    then obtain r where r: "c # cs = ''AC1015'' @ r" by (auto simp: prefix_def)
    then have d: "drop 6 (c # cs) = r" by simp
    have "list_all2 same_text (drop 6 (c # cs)) (replace_version (drop 6 (c # cs)))"
      using 2 True by blast
    then have ih: "list_all2 same_text r (replace_version r)" unfolding d .
    have "list_all2 same_text ''AC1015'' ''AC1021''"
      by (simp add: same_text_def is_digit_def)
    from this ih have "list_all2 same_text (''AC1015'' @ r) (''AC1021'' @ replace_version r)"
      by (rule list_all2_appendI)
    then show ?thesis unfolding r rv_token .
  next
    case False
    have "list_all2 same_text cs (replace_version cs)" using 2 False by blast
    moreover have "same_text c c" by (simp add: same_text_def)
    ultimately show ?thesis unfolding rv_miss [OF False] by simp
  qed
qed

lemma same_text_prefix:
  "\<forall>c \<in> set t. \<not> is_digit c \<Longrightarrow> list_all2 same_text a b \<Longrightarrow> prefix t a = prefix t b"
proof (induction t arbitrary: a b)
  case Nil
  show ?case by simp
next
  case (Cons x t)
  from Cons.prems(1) have x: "\<not> is_digit x" and t: "\<forall>c \<in> set t. \<not> is_digit c" by simp_all
  show ?case
  proof (cases a)
    case Nil
    with Cons.prems(2) show ?thesis by simp
  next
    case a: (Cons c a')
    with Cons.prems(2) obtain d b' where b: "b = d # b'" and r: "same_text c d"
      and l: "list_all2 same_text a' b'"
      by (auto simp: list_all2_Cons1)
    from r x have "(x = c) = (x = d)" by (auto simp: same_text_def)
    with Cons.IH [OF t l] show ?thesis unfolding a b by simp
  qed
qed

lemma same_text_find_first:
  assumes "\<forall>c \<in> set t. \<not> is_digit c"
  shows "list_all2 same_text a b \<Longrightarrow> find_first t a = find_first t b"
proof (induction a b rule: list_all2_induct)
  case Nil
  show ?case by simp
next
  case (Cons x xs y ys)
  then have "list_all2 same_text (x # xs) (y # ys)" by simp
  with assms have "prefix t (x # xs) = prefix t (y # ys)" by (rule same_text_prefix)
  with Cons.IH show ?case by simp
qed

lemma same_text_sublist:
  assumes "\<forall>c \<in> set t. \<not> is_digit c" and "list_all2 same_text a b"
  shows "sublist t a = sublist t b"
  using same_text_find_first [OF assms] find_first_None [of t a] find_first_None [of t b]
  by simp

lemma name_no_digit: "\<forall>c \<in> set ''$INSUNITS''. \<not> is_digit c"
  by (simp add: is_digit_def)

lemma header_no_digit: "\<forall>c \<in> set ''HEADER''. \<not> is_digit c"
  by (simp add: is_digit_def)

lemma endsec_no_digit: "\<forall>c \<in> set ''ENDSEC''. \<not> is_digit c"
  by (simp add: is_digit_def)

lemma replace_version_name:
  "sublist ''$INSUNITS'' (replace_version s) = sublist ''$INSUNITS'' s"
  using same_text_sublist [OF name_no_digit replace_version_same_text [of s]] by simp

lemma replace_version_pair: "has_pair (replace_version s) = has_pair s"
proof -
  have f: "find_first ''HEADER'' (replace_version s) = find_first ''HEADER'' s"
    using same_text_find_first [OF header_no_digit replace_version_same_text [of s]] by simp
  have "sublist ''ENDSEC'' (drop n (replace_version s)) = sublist ''ENDSEC'' (drop n s)" for n
  proof -
    have "list_all2 same_text (drop n s) (drop n (replace_version s))"
      using replace_version_same_text by (rule list_all2_dropI)
    from same_text_sublist [OF endsec_no_digit this] show ?thesis by simp
  qed
  with f show ?thesis
    by (simp add: has_pair_def py_in_sublist split: option.splits)
qed



section \<open>The calls on the exporter\<close>

lemma guarded_call_cfg: "is_configuration c \<Longrightarrow> \<forall>x \<in> set (fst (guarded_call b c w)). is_configuration x"
  by (cases b) simp_all

lemma configure_calls: "\<forall>c \<in> set (fst (configure h scale)). is_configuration c"
  using guarded_call_cfg [of "SetSymbologyScale scale" "setSymbologyScale h" WarnScale]
    guarded_call_cfg [of SetSourceCrs "setSourceCrs h" WarnCrs]
    guarded_call_cfg [of SetCrs "setCrs h" WarnCrs]
  by (auto simp: configure_def set_scale_def set_crs_def set_map_settings_def
           split: behaviour.splits)

lemma dict_put_not_Nil: "dict_put d k v \<noteq> []"
  by (cases d) (auto split: if_splits)

lemma layers_dict_loop_not_Nil: "d \<noteq> [] \<Longrightarrow> layers_dict_loop ls d \<noteq> []"
  by (induction ls arbitrary: d) (auto simp: dict_put_not_Nil)

lemma layers_dict_loop_Nil:
  "(layers_dict_loop ls [] = []) = (\<forall>l \<in> set ls. kind l \<noteq> VectorLayer)"
  by (induction ls) (auto simp: layers_dict_loop_not_Nil dict_put_not_Nil)

section \<open>Counting the directive\<close>





section \<open>The unit records of a text\<close>

lemma has_record_ConsD:
  "\<not> has_record (c # cs) \<Longrightarrow> re_match pattern (c # cs) (c # cs) = None \<and> \<not> has_record cs"
  by (cases "re_match pattern (c # cs) (c # cs)") simp_all

lemma has_record_no_match:
  "re_match pattern (c # cs) (c # cs) = None \<Longrightarrow> has_record (c # cs) = has_record cs"
  by simp

lemma has_record_match:
  "re_match pattern (c # cs) (c # cs) \<noteq> None \<Longrightarrow> has_record (c # cs)"
  by (cases "re_match pattern (c # cs) (c # cs)") simp_all

lemma match_any_context: "re_match pattern s g = None \<Longrightarrow> re_match pattern s g' = None"
  by (simp add: pattern_match)

lemma no_digit_first_iff: "no_digit_first r = (r = [] \<or> \<not> is_digit (hd r))"
  by (cases r) simp_all

lemma match_extends:
  assumes "re_match pattern q g \<noteq> None"
  shows "re_match pattern (q @ x) g' \<noteq> None"
proof -
  from assms obtain a r where "re_match pattern q g = Some (a, r)" by auto
  from match_recordD [OF this] obtain w1 w2 ds where
    q: "q = ''$INSUNITS\<newline>'' @ w1 @ ''70\<newline>'' @ w2 @ ds @ r"
    and c: "\<forall>c \<in> set w1. is_space c" "\<forall>c \<in> set w2. is_space c"
       "ds \<noteq> []" "\<forall>c \<in> set ds. is_digit c"
    by blast
  have "re_match pattern (''$INSUNITS\<newline>'' @ w1 @ ''70\<newline>'' @ w2 @ ds @ (r @ x)) g' \<noteq> None"
    using c by (rule match_record_any)
  then show ?thesis unfolding q by simp
qed

lemma match_before_dollar:
  assumes m: "re_match pattern (q @ CHR ''$'' # x) g \<noteq> None" and ne: "q \<noteq> []"
  shows "re_match pattern q g' \<noteq> None"
proof -
  from m obtain a r where "re_match pattern (q @ CHR ''$'' # x) g = Some (a, r)" by auto
  from match_recordD [OF this] obtain w1 w2 ds where
    s: "q @ CHR ''$'' # x = ''$INSUNITS\<newline>'' @ w1 @ ''70\<newline>'' @ w2 @ ds @ r"
    and c: "\<forall>c \<in> set w1. is_space c" "\<forall>c \<in> set w2. is_space c"
       "ds \<noteq> []" "\<forall>c \<in> set ds. is_digit c"
    by blast
  define u where "u = ''INSUNITS\<newline>'' @ w1 @ ''70\<newline>'' @ w2 @ ds"
  have nd: "\<not> is_space CHR ''$''" "\<not> is_digit CHR ''$''"
    by (simp_all add: is_space_def is_digit_def)
  have u: "CHR ''$'' \<notin> set u" using c nd by (auto simp: u_def)
  from ne obtain q0 q' where q: "q = q0 # q'" by (cases q) auto
  from s have e: "q' @ CHR ''$'' # x = u @ r" and q0: "q0 = CHR ''$''"
    by (simp_all add: q u_def)
  from e obtain z where "(q' = u @ z \<and> z @ CHR ''$'' # x = r) \<or>
      (q' @ z = u \<and> CHR ''$'' # x = z @ r)"
    unfolding append_eq_append_conv2 by blast
  then have "\<exists>z. q' = u @ z"
  proof
    assume "q' = u @ z \<and> z @ CHR ''$'' # x = r"
    then show ?thesis by blast
  next
    assume a: "q' @ z = u \<and> CHR ''$'' # x = z @ r"
    show ?thesis
    proof (cases z)
      case Nil
      with a show ?thesis by auto
    next
      case (Cons z0 z')
      with a have "z0 = CHR ''$''" by simp
      with a Cons have "CHR ''$'' \<in> set u" by auto
      with u show ?thesis by simp
    qed
  qed
  then obtain z where z: "q' = u @ z" by blast
  have "re_match pattern (''$INSUNITS\<newline>'' @ w1 @ ''70\<newline>'' @ w2 @ ds @ z) g' \<noteq> None"
    using c by (rule match_record_any)
  moreover have "q = ''$INSUNITS\<newline>'' @ w1 @ ''70\<newline>'' @ w2 @ ds @ z"
    by (simp add: q q0 z u_def)
  ultimately show ?thesis by simp
qed

lemma has_record_name: "has_record s \<Longrightarrow> sublist ''$INSUNITS'' s"
proof (induction s)
  case Nil
  then show ?case by simp
next
  case (Cons c cs)
  show ?case
  proof (cases "re_match pattern (c # cs) (c # cs) = None")
    case True
    with Cons show ?thesis by (simp add: sublist_Cons_right)
  next
    case False
    have "prefix ''$INSUNITS\<newline>'' (c # cs)"
    proof (rule ccontr)
      assume "\<not> prefix ''$INSUNITS\<newline>'' (c # cs)"
      then have "re_match pattern (c # cs) (c # cs) = None" by (rule no_match_without_name)
      with False show False ..
    qed
    then have "prefix ''$INSUNITS'' (c # cs)" by (rule name_prefix)
    then show ?thesis by (simp only: sublist_Cons_right) simp
  qed
qed

lemma re_sub_no_record: "\<not> has_record s \<Longrightarrow> re_sub s = s"
proof (induction s)
  case Nil
  show ?case by simp
next
  case (Cons c cs)
  then have m: "re_match pattern (c # cs) (c # cs) = None" and n: "\<not> has_record cs"
    using has_record_ConsD by blast+
  have "re_sub (c # cs) = c # re_sub cs" using m by (rule re_sub_no_match)
  with Cons.IH [OF n] show ?case by simp
qed

lemma re_sub_before_record:
  "\<not> has_record before \<Longrightarrow>
     re_sub (before @ CHR ''$'' # x) = before @ re_sub (CHR ''$'' # x)"
proof (induction before)
  case Nil
  show ?case by simp
next
  case (Cons c b)
  then have m: "re_match pattern (c # b) (c # b) = None" and n: "\<not> has_record b"
    using has_record_ConsD by blast+
  have "re_match pattern ((c # b) @ CHR ''$'' # x) ((c # b) @ CHR ''$'' # x) = None"
  proof (rule ccontr)
    assume "re_match pattern ((c # b) @ CHR ''$'' # x) ((c # b) @ CHR ''$'' # x) \<noteq> None"
    then have "re_match pattern (c # b) (c # b) \<noteq> None"
      by (rule match_before_dollar) simp
    with m show False by simp
  qed
  then have "re_match pattern (c # (b @ CHR ''$'' # x)) (c # (b @ CHR ''$'' # x)) = None"
    by simp
  then have "re_sub (c # (b @ CHR ''$'' # x)) = c # re_sub (b @ CHR ''$'' # x)"
    by (rule re_sub_no_match)
  with Cons.IH [OF n] show ?case by (simp del: re_sub.simps)
qed

lemma re_sub_assemble: "well_formed ps tail \<Longrightarrow> re_sub (assemble ps tail) = assemble (map set_six ps) tail"
proof (induction ps)
  case Nil
  then show ?case by (simp add: re_sub_no_record)
next
  case (Cons p ps)
  obtain b w1 w2 ds where p: "p = Piece b w1 w2 ds" by (cases p)
  from Cons.prems have b: "\<not> has_record b"
    and w: "\<forall>c \<in> set w1. is_space c" "\<forall>c \<in> set w2. is_space c"
    and d: "ds \<noteq> []" "\<forall>c \<in> set ds. is_digit c"
    and r: "assemble ps tail = [] \<or> \<not> is_digit (hd (assemble ps tail))"
    and well_formed: "well_formed ps tail"
    by (simp_all add: p list_all_iff no_digit_first_iff)
  define rest where "rest = assemble ps tail"
  define x where "x = ''INSUNITS\<newline>'' @ w1 @ ''70\<newline>'' @ w2 @ ds @ rest"
  have "re_sub (b @ CHR ''$'' # x) = b @ re_sub (CHR ''$'' # x)"
    using b by (rule re_sub_before_record)
  moreover have "re_sub (''$INSUNITS\<newline>'' @ w1 @ ''70\<newline>'' @ w2 @ ds @ rest) =
      ''$INSUNITS\<newline>'' @ w1 @ ''70\<newline>'' @ w2 @ ''6'' @ re_sub rest"
    using w d r unfolding rest_def by (rule re_sub_record)
  moreover have "CHR ''$'' # x = ''$INSUNITS\<newline>'' @ w1 @ ''70\<newline>'' @ w2 @ ds @ rest"
    by (simp add: x_def)
  moreover have "re_sub rest = assemble (map set_six ps) tail"
    unfolding rest_def using well_formed by (rule Cons.IH)
  ultimately have "re_sub (b @ ''$INSUNITS\<newline>'' @ w1 @ ''70\<newline>'' @ w2 @ ds @ rest) =
      b @ ''$INSUNITS\<newline>'' @ w1 @ ''70\<newline>'' @ w2 @ ''6'' @ assemble (map set_six ps) tail"
    by (simp del: re_sub.simps)
  then show ?case by (simp add: p rest_def del: re_sub.simps)
qed

lemma assemble_name: "ps \<noteq> [] \<Longrightarrow> sublist ''$INSUNITS'' (assemble ps tail)"
proof -
  assume "ps \<noteq> []"
  then obtain p rest where pr: "ps = p # rest" by (cases ps) auto
  obtain b w1 w2 ds where p: "p = Piece b w1 w2 ds" by (cases p)
  have ps: "ps = Piece b w1 w2 ds # rest" unfolding pr p ..
  have "assemble ps tail =
      b @ ''$INSUNITS'' @ (CHR ''\<newline>'' # w1 @ ''70\<newline>'' @ w2 @ ds @ assemble rest tail)"
    by (simp add: ps)
  then show ?thesis by (metis sublist_appendI)
qed

lemma set_units_assemble:
  assumes "ps \<noteq> []" and "well_formed ps tail"
  shows "set_units (assemble ps tail) = assemble (map set_six ps) tail"
proof -
  have "py_in ''$INSUNITS'' (assemble ps tail)"
    unfolding py_in_sublist using assms(1) by (rule assemble_name)
  then have "set_units (assemble ps tail) = re_sub (assemble ps tail)"
    by (simp add: set_units_def)
  also have "\<dots> = assemble (map set_six ps) tail"
    using assms(2) by (rule re_sub_assemble)
  finally show ?thesis .
qed

lemma set_units_name_only:
  assumes "sublist ''$INSUNITS'' s" and "\<not> has_record s"
  shows "set_units s = s"
proof -
  from assms(1) have "set_units s = re_sub s" by (simp add: set_units_def py_in_sublist)
  also have "\<dots> = s" using assms(2) by (rule re_sub_no_record)
  finally show ?thesis .
qed

lemma records_decompose:
  "\<exists>ps tail. s = assemble ps tail \<and> well_formed ps tail \<and> (ps = [] \<longleftrightarrow> \<not> has_record s)"
proof (induction s rule: re_sub.induct)
  case 1
  have "[] = assemble [] [] \<and> well_formed [] [] \<and> (([]::piece list) = [] \<longleftrightarrow> \<not> has_record [])"
    by simp
  then show ?case by blast
next
  case (2 c cs)
  show ?case
  proof (cases "re_match pattern (c # cs) (c # cs)")
    case None
    from "2.IH"(1) [OF None] obtain ps tail where
      cs: "cs = assemble ps tail" and w: "well_formed ps tail"
      and e: "ps = [] \<longleftrightarrow> \<not> has_record cs"
      by blast
    have h: "has_record (c # cs) = has_record cs" using None by (rule has_record_no_match)
    show ?thesis
    proof (cases ps)
      case Nil
      with cs w e h have "c # cs = assemble [] (c # tail) \<and> well_formed [] (c # tail) \<and>
          (([]::piece list) = [] \<longleftrightarrow> \<not> has_record (c # cs))"
        by simp
      then show ?thesis by blast
    next
      case (Cons p rest)
      obtain b w1 w2 ds where p: "p = Piece b w1 w2 ds" by (cases p)
      define x where "x = ''INSUNITS\<newline>'' @ w1 @ ''70\<newline>'' @ w2 @ ds @ assemble rest tail"
      have cs': "cs = b @ CHR ''$'' # x" by (simp add: cs Cons p x_def)
      have nb: "\<not> has_record b" using w by (simp add: Cons p)
      have "re_match pattern (c # b) (c # b) = None"
      proof (rule ccontr)
        assume "re_match pattern (c # b) (c # b) \<noteq> None"
        then have "re_match pattern ((c # b) @ CHR ''$'' # x) (c # cs) \<noteq> None"
          by (rule match_extends)
        with None show False by (simp add: cs')
      qed
      then have "has_record (c # b) = has_record b" by (rule has_record_no_match)
      with nb have ncb: "\<not> has_record (c # b)" by simp
      have 1: "c # cs = assemble (Piece (c # b) w1 w2 ds # rest) tail"
        by (simp add: cs Cons p)
      have 2: "well_formed (Piece (c # b) w1 w2 ds # rest) tail"
        using w ncb by (simp add: Cons p del: has_record.simps)
      have 3: "(Piece (c # b) w1 w2 ds # rest = []) \<longleftrightarrow> \<not> has_record (c # cs)"
        using e h by (simp add: Cons del: has_record.simps)
      from 1 2 3 show ?thesis by blast
    qed
  next
    case (Some a)
    obtain g r where a: "a = (g, r)" by (cases a)
    from match_recordD [OF Some [unfolded a]] obtain w1 w2 ds where
      s: "c # cs = ''$INSUNITS\<newline>'' @ w1 @ ''70\<newline>'' @ w2 @ ds @ r"
      and c: "\<forall>c \<in> set w1. is_space c" "\<forall>c \<in> set w2. is_space c"
         "ds \<noteq> []" "\<forall>c \<in> set ds. is_digit c" "r = [] \<or> \<not> is_digit (hd r)"
      by blast
    from "2.IH"(2) [OF Some a [symmetric]] obtain ps tail where
      r: "r = assemble ps tail" and w: "well_formed ps tail"
      by blast
    have 1: "c # cs = assemble (Piece [] w1 w2 ds # ps) tail"
      unfolding s by (simp add: r)
    have 2: "well_formed (Piece [] w1 w2 ds # ps) tail"
      using c w by (simp add: list_all_iff no_digit_first_iff r [symmetric])
    have "re_match pattern (c # cs) (c # cs) \<noteq> None" using Some by simp
    then have "has_record (c # cs)" by (rule has_record_match)
    then have 3: "(Piece [] w1 w2 ds # ps = []) \<longleftrightarrow> \<not> has_record (c # cs)" by simp
    from 1 2 3 show ?thesis by blast
  qed
qed



lemma has_record_split:
  "has_record s \<Longrightarrow> \<exists>a x m. s = a @ x \<and> re_match pattern x x = Some m"
proof (induction s)
  case Nil
  then show ?case by simp
next
  case (Cons c cs)
  show ?case
  proof (cases "re_match pattern (c # cs) (c # cs)")
    case None
    then have "has_record (c # cs) = has_record cs" by (rule has_record_no_match)
    with Cons.prems have "has_record cs" by simp
    from Cons.IH [OF this] obtain a x m where "cs = a @ x" "re_match pattern x x = Some m"
      by blast
    then have "c # cs = (c # a) @ x \<and> re_match pattern x x = Some m" by simp
    then show ?thesis by blast
  next
    case (Some m)
    then have "c # cs = [] @ (c # cs) \<and> re_match pattern (c # cs) (c # cs) = Some m" by simp
    then show ?thesis by blast
  qed
qed

lemma has_record_append:
  assumes "re_match pattern x x \<noteq> None"
  shows "has_record (a @ x)"
proof (induction a)
  case Nil
  from assms obtain c cs where x: "x = c # cs" by (cases x) (auto simp: pattern_def)
  from assms show ?case unfolding x append_Nil by (rule has_record_match)
next
  case (Cons c a)
  show ?case
  proof (cases "re_match pattern (c # a @ x) (c # a @ x)")
    case None
    then have "has_record (c # a @ x) = has_record (a @ x)" by (rule has_record_no_match)
    with Cons show ?thesis by simp
  next
    case (Some m)
    then have "re_match pattern (c # a @ x) (c # a @ x) \<noteq> None" by simp
    then have "has_record (c # a @ x)" by (rule has_record_match)
    then show ?thesis by simp
  qed
qed

lemma has_record_iff:
  "has_record s \<longleftrightarrow>
     (\<exists>a w1 w2 ds r. s = a @ ''$INSUNITS\<newline>'' @ w1 @ ''70\<newline>'' @ w2 @ ds @ r \<and>
        list_all is_space w1 \<and> list_all is_space w2 \<and> ds \<noteq> [] \<and> list_all is_digit ds)"
proof
  assume "has_record s"
  from has_record_split [OF this] obtain a x m where
    s: "s = a @ x" and m: "re_match pattern x x = Some m"
    by blast
  obtain g r where gr: "m = (g, r)" by (cases m)
  from match_recordD [OF m [unfolded gr]] obtain w1 w2 ds where
    x: "x = ''$INSUNITS\<newline>'' @ w1 @ ''70\<newline>'' @ w2 @ ds @ r"
    and c: "\<forall>c \<in> set w1. is_space c" "\<forall>c \<in> set w2. is_space c"
       "ds \<noteq> []" "\<forall>c \<in> set ds. is_digit c"
    by blast
  have "s = a @ ''$INSUNITS\<newline>'' @ w1 @ ''70\<newline>'' @ w2 @ ds @ r \<and>
        list_all is_space w1 \<and> list_all is_space w2 \<and> ds \<noteq> [] \<and> list_all is_digit ds"
    using c unfolding s x by (simp add: list_all_iff)
  then show "\<exists>a w1 w2 ds r. s = a @ ''$INSUNITS\<newline>'' @ w1 @ ''70\<newline>'' @ w2 @ ds @ r \<and>
        list_all is_space w1 \<and> list_all is_space w2 \<and> ds \<noteq> [] \<and> list_all is_digit ds"
    by blast
next
  assume "\<exists>a w1 w2 ds r. s = a @ ''$INSUNITS\<newline>'' @ w1 @ ''70\<newline>'' @ w2 @ ds @ r \<and>
        list_all is_space w1 \<and> list_all is_space w2 \<and> ds \<noteq> [] \<and> list_all is_digit ds"
  then obtain a w1 w2 ds r where
    s: "s = a @ ''$INSUNITS\<newline>'' @ w1 @ ''70\<newline>'' @ w2 @ ds @ r"
    and c: "list_all is_space w1" "list_all is_space w2" "ds \<noteq> []" "list_all is_digit ds"
    by blast
  define x where "x = ''$INSUNITS\<newline>'' @ w1 @ ''70\<newline>'' @ w2 @ ds @ r"
  have c': "\<forall>c \<in> set w1. is_space c" "\<forall>c \<in> set w2. is_space c" "\<forall>c \<in> set ds. is_digit c"
    using c by (simp_all add: list_all_iff)
  have "re_match pattern (''$INSUNITS\<newline>'' @ w1 @ ''70\<newline>'' @ w2 @ ds @ r) x \<noteq> None"
    using c'(1) c'(2) c(3) c'(3) by (rule match_record_any)
  then have "re_match pattern x x \<noteq> None" unfolding x_def .
  then have "has_record (a @ x)" by (rule has_record_append)
  then show "has_record s" unfolding s x_def .
qed


lemma patch_records:
  assumes "replace_version doc = assemble ps tail" and "ps \<noteq> []" and "well_formed ps tail"
  shows "patch doc = assemble (map set_six ps) tail"
  unfolding patch_def assms(1) using assms(2,3) by (rule set_units_assemble)

lemma patch_name_only:
  assumes "sublist ''$INSUNITS'' doc" and "\<not> has_record (replace_version doc)"
  shows "patch doc = replace_version doc"
proof -
  from assms(1) have "sublist ''$INSUNITS'' (replace_version doc)"
    by (simp add: replace_version_name)
  then show ?thesis unfolding patch_def using assms(2) by (rule set_units_name_only)
qed






section \<open>The claims about the patched text\<close>

text \<open>
  C3. The version rewrite replaces every occurrence of \<^verbatim>\<open>AC1015\<close>, wherever it stands in
  the document, by \<^verbatim>\<open>AC1021\<close>: an occurrence between any two texts is replaced and both
  texts are rewritten in the same way, no occurrence is left in the result, and the length
  is kept. On the document of scenario A the output holds \<^verbatim>\<open>AC1021\<close> in the place of
  \<^verbatim>\<open>AC1015\<close> (and the units code 6 in the place of 0).
\<close>

theorem version_rewrite_everywhere:
  "replace_version (a @ ''AC1015'' @ b) = replace_version a @ ''AC1021'' @ replace_version b \<and>
   \<not> sublist ''AC1015'' (replace_version doc) \<and>
   length (replace_version doc) = length doc \<and>
   patch ''HEADER\<newline>$INSUNITS\<newline> 70\<newline>     0\<newline>ENDSEC\<newline>...AC1015...'' =
     ''HEADER\<newline>$INSUNITS\<newline> 70\<newline>     6\<newline>ENDSEC\<newline>...AC1021...''"
proof (intro conjI)
  show "replace_version (a @ ''AC1015'' @ b) =
          replace_version a @ ''AC1021'' @ replace_version b"
    by (rule replace_version_append)
  show "\<not> sublist ''AC1015'' (replace_version doc)" by (rule replace_version_clean)
  show "length (replace_version doc) = length doc" by (rule replace_version_length)
  show "patch ''HEADER\<newline>$INSUNITS\<newline> 70\<newline>     0\<newline>ENDSEC\<newline>...AC1015...'' =
     ''HEADER\<newline>$INSUNITS\<newline> 70\<newline>     6\<newline>ENDSEC\<newline>...AC1021...''"
    by (simp add: patch_def set_units_def pattern_def is_space_def is_digit_def)
qed

theorem version_rewrite_everywhere_witness:
  "replace_version ''AC1015 and AC1015'' = ''AC1021 and AC1021'' \<and>
   \<not> sublist ''AC1015'' (replace_version ''xAC1015AC1015'') \<and>
   length (replace_version ''xAC1015AC1015'') = 13"
  using version_rewrite_everywhere [of "[]" "'' and AC1015''" "''xAC1015AC1015''"]
  by simp

text \<open>
  C6. Patching is idempotent: patching a patched document changes nothing. The target
  version and the units code are the constants \<^verbatim>\<open>AC1021\<close> and 6 of the script.
\<close>

theorem patch_idempotent: "patch (patch doc) = patch doc"
proof -
  have "\<not> sublist ''AC1015'' (replace_version doc)" by (rule replace_version_clean)
  then have "\<not> sublist ''AC1015'' (set_units (replace_version doc))"
    by (rule set_units_clean)
  then have "replace_version (set_units (replace_version doc)) =
               set_units (replace_version doc)"
    by (rule replace_version_id)
  then show ?thesis by (simp add: patch_def set_units_idem)
qed

theorem patch_idempotent_witness:
  "patch (patch ''HEADER\<newline>ENDSEC\<newline>AC1015'') = ''HEADER\<newline>\<newline>$INSUNITS\<newline> 70\<newline>     6\<newline>ENDSEC\<newline>AC1021''"
  using patch_idempotent [of "''HEADER\<newline>ENDSEC\<newline>AC1015''"]
  by (simp add: patch_def set_units_def py_find_def units_def_def)

text \<open>
  C4, as stated, fails. In a document that holds the version token on one line and a unit
  directive on the next lines, patching changes the line of the version token as well, so
  not every other line stays as it was. And a directive whose value is not a run of digits
  (here \<^verbatim>\<open>-1\<close>) is left as it is.
\<close>

theorem unit_value_line_counterexample:
  "patch ''AC1015\<newline>$INSUNITS\<newline> 70\<newline>     0\<newline>'' = ''AC1021\<newline>$INSUNITS\<newline> 70\<newline>     6\<newline>'' \<and>
   patch ''AC1015\<newline>$INSUNITS\<newline> 70\<newline>     0\<newline>'' \<noteq> ''AC1015\<newline>$INSUNITS\<newline> 70\<newline>     6\<newline>'' \<and>
   patch ''$INSUNITS\<newline> 70\<newline>    -1\<newline>'' = ''$INSUNITS\<newline> 70\<newline>    -1\<newline>''"
  by (simp add: patch_def set_units_def pattern_def is_space_def is_digit_def)

text \<open>
  C4, amended. A unit record is the name line \<^verbatim>\<open>$INSUNITS\<close> with its line break, white space,
  the line \<^verbatim>\<open>70\<close> with its line break, white space and a run of digits; \<open>has_record\<close> says that
  a text holds one, as the last part of the theorem spells out. Every version-rewritten
  document is a sequence of unit records, each with a run of digits that no digit follows,
  with texts that hold no record before, between and behind them. When there is at least
  one record, patching replaces the run of digits of every record by \<^verbatim>\<open>6\<close> and leaves the name
  lines, the lines 70, the white space and the texts around the records as they are in the
  version-rewritten document. An occurrence of \<^verbatim>\<open>$INSUNITS\<close> that begins no record stays as it
  is: when the name occurs and no record does, the output is the version-rewritten document.
\<close>

theorem unit_values_replaced:
  "(replace_version doc = assemble ps tail \<and> ps \<noteq> [] \<and> well_formed ps tail \<longrightarrow>
      patch doc = assemble (map set_six ps) tail) \<and>
   (sublist ''$INSUNITS'' doc \<and> \<not> has_record (replace_version doc) \<longrightarrow>
      patch doc = replace_version doc) \<and>
   (\<exists>qs rest. replace_version doc = assemble qs rest \<and> well_formed qs rest \<and>
      (qs = [] \<longleftrightarrow> \<not> has_record (replace_version doc))) \<and>
   (has_record s \<longleftrightarrow>
      (\<exists>a w1 w2 ds r. s = a @ ''$INSUNITS\<newline>'' @ w1 @ ''70\<newline>'' @ w2 @ ds @ r \<and>
         list_all is_space w1 \<and> list_all is_space w2 \<and> ds \<noteq> [] \<and> list_all is_digit ds))"
proof (intro conjI impI)
  assume "replace_version doc = assemble ps tail \<and> ps \<noteq> [] \<and> well_formed ps tail"
  then show "patch doc = assemble (map set_six ps) tail" by (simp add: patch_records)
next
  assume "sublist ''$INSUNITS'' doc \<and> \<not> has_record (replace_version doc)"
  then show "patch doc = replace_version doc" by (simp add: patch_name_only)
next
  show "\<exists>qs rest. replace_version doc = assemble qs rest \<and> well_formed qs rest \<and>
      (qs = [] \<longleftrightarrow> \<not> has_record (replace_version doc))"
    by (rule records_decompose)
next
  show "has_record s \<longleftrightarrow>
      (\<exists>a w1 w2 ds r. s = a @ ''$INSUNITS\<newline>'' @ w1 @ ''70\<newline>'' @ w2 @ ds @ r \<and>
         list_all is_space w1 \<and> list_all is_space w2 \<and> ds \<noteq> [] \<and> list_all is_digit ds)"
    by (rule has_record_iff)
qed

theorem unit_values_replaced_witness:
  "patch ''AC1015\<newline>$INSUNITS\<newline> 70\<newline>     0\<newline>$INSUNITSDEFSOURCE\<newline> 70\<newline>     4\<newline>$INSUNITS\<newline>70\<newline>12\<newline>'' =
     ''AC1021\<newline>$INSUNITS\<newline> 70\<newline>     6\<newline>$INSUNITSDEFSOURCE\<newline> 70\<newline>     4\<newline>$INSUNITS\<newline>70\<newline>6\<newline>'' \<and>
   patch ''$INSUNITS\<newline>  9\<newline>AC1015'' = ''$INSUNITS\<newline>  9\<newline>AC1021''"
proof -
  define ps where "ps = [Piece ''AC1021\<newline>'' '' '' ''     '' ''0'',
      Piece ''\<newline>$INSUNITSDEFSOURCE\<newline> 70\<newline>     4\<newline>'' [] [] ''12'']"
  have 1: "replace_version ''AC1015\<newline>$INSUNITS\<newline> 70\<newline>     0\<newline>$INSUNITSDEFSOURCE\<newline> 70\<newline>     4\<newline>$INSUNITS\<newline>70\<newline>12\<newline>'' =
      assemble ps ''\<newline>''"
    by (simp add: ps_def)
  have 2: "ps \<noteq> []" by (simp add: ps_def)
  have 3: "well_formed ps ''\<newline>''"
    by (simp add: ps_def pattern_def is_space_def is_digit_def)
  have 4: "assemble (map set_six ps) ''\<newline>'' =
      ''AC1021\<newline>$INSUNITS\<newline> 70\<newline>     6\<newline>$INSUNITSDEFSOURCE\<newline> 70\<newline>     4\<newline>$INSUNITS\<newline>70\<newline>6\<newline>''"
    by (simp add: ps_def)
  have 5: "sublist ''$INSUNITS'' ''$INSUNITS\<newline>  9\<newline>AC1015''" by code_simp
  have 6: "replace_version ''$INSUNITS\<newline>  9\<newline>AC1015'' = ''$INSUNITS\<newline>  9\<newline>AC1021''" by simp
  have 7: "\<not> has_record ''$INSUNITS\<newline>  9\<newline>AC1021''"
    by (simp add: pattern_def is_space_def is_digit_def)
  from unit_values_replaced [of "''AC1015\<newline>$INSUNITS\<newline> 70\<newline>     0\<newline>$INSUNITSDEFSOURCE\<newline> 70\<newline>     4\<newline>$INSUNITS\<newline>70\<newline>12\<newline>''" ps "''\<newline>''"]
    1 2 3 have a: "patch ''AC1015\<newline>$INSUNITS\<newline> 70\<newline>     0\<newline>$INSUNITSDEFSOURCE\<newline> 70\<newline>     4\<newline>$INSUNITS\<newline>70\<newline>12\<newline>'' =
      assemble (map set_six ps) ''\<newline>''"
    by blast
  from unit_values_replaced [of "''$INSUNITS\<newline>  9\<newline>AC1015''"] 5 7
  have b: "patch ''$INSUNITS\<newline>  9\<newline>AC1015'' = replace_version ''$INSUNITS\<newline>  9\<newline>AC1015''"
    unfolding 6 by blast
  from a b show ?thesis unfolding 4 6 by blast
qed







text \<open>
  C2, as stated, fails. A document without \<^verbatim>\<open>HEADER\<close>, without a header pair and without
  a unit directive is patched without any warning: the script writes the text back and
  prints its two lines of success.
\<close>

theorem missing_header_counterexample:
  "\<not> sublist ''HEADER'' ''  0\<newline>EOF\<newline>'' \<and>
   \<not> has_pair ''  0\<newline>EOF\<newline>'' \<and>
   \<not> sublist ''$INSUNITS'' ''  0\<newline>EOF\<newline>'' \<and>
   postprocess (Some ''  0\<newline>EOF\<newline>'') True = (Some ''  0\<newline>EOF\<newline>'', [VersionChanged, UnitsSet])"
proof -
  have "\<not> sublist ''HEADER'' ''  0\<newline>EOF\<newline>''" "\<not> sublist ''$INSUNITS'' ''  0\<newline>EOF\<newline>''"
    by code_simp+
  moreover have "\<not> has_pair ''  0\<newline>EOF\<newline>''" by (simp add: has_pair_def)
  moreover have "patch ''  0\<newline>EOF\<newline>'' = ''  0\<newline>EOF\<newline>''"
    by (simp add: patch_def set_units_def py_find_def)
  ultimately show ?thesis by simp
qed

text \<open>
  C2, amended. The normalisation never fails because of the header: whenever the file was
  read and the writing succeeds, the patched text is written and the two lines of success
  are printed. When the document has neither a unit directive nor a header pair, the
  patched text is the version-rewritten document and nothing is inserted.
\<close>

theorem header_never_fails:
  "postprocess (Some doc) True = (Some (patch doc), [VersionChanged, UnitsSet]) \<and>
   (\<not> sublist ''$INSUNITS'' doc \<and> \<not> has_pair doc \<longrightarrow> patch doc = replace_version doc)"
proof (intro conjI impI)
  show "postprocess (Some doc) True = (Some (patch doc), [VersionChanged, UnitsSet])" by simp
  assume "\<not> sublist ''$INSUNITS'' doc \<and> \<not> has_pair doc"
  then have "\<not> sublist ''$INSUNITS'' (replace_version doc)" "\<not> has_pair (replace_version doc)"
    by (simp_all add: replace_version_name replace_version_pair)
  then have "set_units (replace_version doc) = replace_version doc"
    by (rule set_units_no_pair)
  then show "patch doc = replace_version doc" by (simp add: patch_def)
qed

theorem header_never_fails_witness:
  "\<not> sublist ''$INSUNITS'' ''ENDSEC HEADER AC1015'' \<and>
   \<not> has_pair ''ENDSEC HEADER AC1015'' \<and>
   patch ''ENDSEC HEADER AC1015'' = ''ENDSEC HEADER AC1021'' \<and>
   postprocess (Some ''ENDSEC HEADER AC1015'') True =
     (Some ''ENDSEC HEADER AC1021'', [VersionChanged, UnitsSet])"
proof -
  have 1: "\<not> sublist ''$INSUNITS'' ''ENDSEC HEADER AC1015''" by code_simp
  have 2: "\<not> has_pair ''ENDSEC HEADER AC1015''" by (simp add: has_pair_def)
  from header_never_fails [of "''ENDSEC HEADER AC1015''"] 1 2 show ?thesis by simp
qed

section \<open>The claim about the exporter\<close>

text \<open>
  C8, as stated, fails. With one raster layer selected the script returns \<^verbatim>\<open>False\<close> and
  prints that there is no vector layer, but by then it has constructed the exporter and
  called its scale, reference system and map settings methods.
\<close>

theorem exporter_contacted_counterexample:
  "export_layers_to_dxf qgis [layer_c] None 500 =
     \<lparr>result = Some False,
      calls = [Construct, SetSymbologyScale 500, SetSourceCrs, SetMapSettings],
      messages = [FoundLayers 1, NoVectorLayers], rewritten = None\<rparr>"
  by (simp add: export_layers_to_dxf_def qgis_def layer_c_def configure_def set_scale_def
        set_crs_def set_map_settings_def layers_dict_def)

text \<open>
  C8, amended. When layers are selected, none of them is a vector layer and the exporter
  can be constructed, the script returns \<^verbatim>\<open>False\<close>, its last printed line says that there
  is no vector layer, and the calls made on the exporter are its construction and the
  configuration calls of lines 78 to 100: no layer is handed to the exporter and nothing is
  written.
\<close>

theorem no_vector_layers_aborts:
  assumes "layers_to_export project selected_layers \<noteq> []"
    and "\<forall>l \<in> set (layers_to_export project selected_layers). kind l \<noteq> VectorLayer"
    and "\<not> exporter_ctor_raises h"
  shows "result (export_layers_to_dxf h project selected_layers scale) = Some False \<and>
         last (messages (export_layers_to_dxf h project selected_layers scale)) = NoVectorLayers \<and>
         calls (export_layers_to_dxf h project selected_layers scale) =
           Construct # fst (configure h scale) \<and>
         (\<forall>c \<in> set (calls (export_layers_to_dxf h project selected_layers scale)).
            is_configuration c)"
proof -
  from assms(2) have d: "layers_dict (layers_to_export project selected_layers) = []"
    by (simp add: layers_dict_def layers_dict_loop_Nil)
  have e: "export_layers_to_dxf h project selected_layers scale =
      \<lparr>result = Some False, calls = Construct # fst (configure h scale),
       messages = FoundLayers (length (layers_to_export project selected_layers)) #
                  snd (configure h scale) @ [NoVectorLayers],
       rewritten = None\<rparr>"
    using assms(1,3) d by (simp add: export_layers_to_dxf_def Let_def)
  show ?thesis unfolding e using configure_calls [of h scale] by simp
qed

theorem no_vector_layers_aborts_witness:
  "layers_to_export [layer_c] None \<noteq> [] \<and>
   result (export_layers_to_dxf qgis [layer_c] None 500) = Some False \<and>
   last (messages (export_layers_to_dxf qgis [layer_c] None 500)) = NoVectorLayers \<and>
   calls (export_layers_to_dxf qgis [layer_c] None 500) =
     [Construct, SetSymbologyScale 500, SetSourceCrs, SetMapSettings]"
proof -
  have 1: "layers_to_export [layer_c] None \<noteq> []" by (simp add: layer_c_def)
  have 2: "\<forall>l \<in> set (layers_to_export [layer_c] None). kind l \<noteq> VectorLayer"
    by (simp add: layer_c_def)
  have 3: "\<not> exporter_ctor_raises qgis" by (simp add: qgis_def)
  have 4: "fst (configure qgis 500) = [SetSymbologyScale 500, SetSourceCrs, SetMapSettings]"
    by (simp add: configure_def set_scale_def set_crs_def set_map_settings_def qgis_def)
  from no_vector_layers_aborts [OF 1 2 3, of 500] 1 4 show ?thesis by simp
qed

end
